theory Spec2Isabelle
  imports Main
begin

section \<open>Strings and numbers of the program\<close>

text \<open>
  The program is \<^verbatim>\<open>src/server.js\<close>: a chat bot that parses a Thai order sentence,
  checks the stock kept in a spreadsheet, appends an order row and rewrites the stock cell.

  A JavaScript string is a sequence of UTF-16 code units. The model writes a string as the
  list of its code units (natural numbers below 65536); every literal of the source is
  written out as its code units.

  A JavaScript number is a double. The values this program computes with are the results
  of \<^verbatim>\<open>parseInt\<close>, a row count plus one, one product and one difference: integers,
  or \<^verbatim>\<open>NaN\<close> when a cell holds no number. The model keeps \<^verbatim>\<open>NaN\<close> and takes the
  integers as mathematical integers. That is what the doubles are as long as the values stay
  within \<open>2^53\<close> in magnitude; beyond it a double is a rounded value (the language leaves
  the rounding of \<^verbatim>\<open>parseInt\<close> after the 20th digit to the implementation), and such
  values are outside the model: the statements on the workflow assume \<open>safeNum\<close>, defined
  below, of the numbers they read and compute.
\<close>

type_synonym jschar = nat
type_synonym jsstring = "nat list"

datatype jsnum = Num int | NaN

text \<open>The relational and arithmetic operators the source uses: \<^verbatim>\<open><\<close>, \<^verbatim>\<open>*\<close>, \<^verbatim>\<open>-\<close>.
  A comparison with \<^verbatim>\<open>NaN\<close> is false; arithmetic with \<^verbatim>\<open>NaN\<close> is \<^verbatim>\<open>NaN\<close>.\<close>

fun js_less :: "jsnum \<Rightarrow> jsnum \<Rightarrow> bool" where
  "js_less (Num a) (Num b) = (a < b)"
| "js_less _ _ = False"

fun js_mul :: "jsnum \<Rightarrow> jsnum \<Rightarrow> jsnum" where
  "js_mul (Num a) (Num b) = Num (a * b)"
| "js_mul _ _ = NaN"

fun js_sub :: "jsnum \<Rightarrow> jsnum \<Rightarrow> jsnum" where
  "js_sub (Num a) (Num b) = Num (a - b)"
| "js_sub _ _ = NaN"

text \<open>The safe integers are the integers of magnitude at most \<open>2^53 - 1\<close>
  (\<^verbatim>\<open>Number.MAX_SAFE_INTEGER\<close>). Each of them is a double; \<^verbatim>\<open>parseInt\<close> reads the
  digits of one exactly, a product or a difference whose mathematical value is one is
  computed exactly, the comparison of two of them is the comparison of the integers, and
  \<^verbatim>\<open>String\<close> prints one as its decimal digits. \<open>safeNum v\<close>: the value is \<^verbatim>\<open>NaN\<close> or a
  safe integer, so that the model computes with it as the program does.\<close>

definition maxSafe :: int where
  "maxSafe = 9007199254740991"

definition safeNum :: "jsnum \<Rightarrow> bool" where
  "safeNum v = (case v of NaN \<Rightarrow> True | Num n \<Rightarrow> - maxSafe \<le> n \<and> n \<le> maxSafe)"

subsection \<open>Character classes\<close>

text \<open>\<^verbatim>\<open>[\u0E00-\u0E7F]\<close>, \<^verbatim>\<open>\d\<close> and \<^verbatim>\<open>\s\<close> (ECMAScript's WhiteSpace and
  LineTerminator code points).\<close>

definition isThai :: "jschar \<Rightarrow> bool" where
  "isThai c = (3584 \<le> c \<and> c \<le> 3711)"

definition isDigit :: "jschar \<Rightarrow> bool" where
  "isDigit c = (48 \<le> c \<and> c \<le> 57)"

definition isSpace :: "jschar \<Rightarrow> bool" where
  "isSpace c = (c \<in> {9, 10, 11, 12, 13, 32, 160, 5760, 8232, 8233, 8239, 8287, 12288, 65279}
                \<or> (8192 \<le> c \<and> c \<le> 8202))"

subsection \<open>Number to string, string to number\<close>

text \<open>\<^verbatim>\<open>String(n)\<close> as a template literal and the JSON encoder apply it to an integer:
  the decimal digits, with a minus sign; \<^verbatim>\<open>"NaN"\<close> for \<^verbatim>\<open>NaN\<close>.\<close>

fun digitsOf :: "nat \<Rightarrow> jsstring" where
  "digitsOf n = (if n < 10 then [48 + n] else digitsOf (n div 10) @ [48 + n mod 10])"

declare digitsOf.simps [simp del]

definition numToString :: "jsnum \<Rightarrow> jsstring" where
  "numToString v = (case v of
      NaN \<Rightarrow> [78, 97, 78]
    | Num n \<Rightarrow> if n < 0 then 45 # digitsOf (nat (- n)) else digitsOf (nat n))"

text \<open>\<^verbatim>\<open>parseInt(s)\<close> with no radix argument: leading white space is skipped, one sign
  is read, a prefix \<^verbatim>\<open>0x\<close> or \<^verbatim>\<open>0X\<close> selects radix 16, and the longest run of digits
  of the radix is the value; no digit at all gives \<^verbatim>\<open>NaN\<close>.\<close>

definition digitValue :: "jschar \<Rightarrow> nat option" where
  "digitValue c =
     (if 48 \<le> c \<and> c \<le> 57 then Some (c - 48)
      else if 97 \<le> c \<and> c \<le> 122 then Some (c - 87)
      else if 65 \<le> c \<and> c \<le> 90 then Some (c - 55)
      else None)"

definition isRadixDigit :: "nat \<Rightarrow> jschar \<Rightarrow> bool" where
  "isRadixDigit R c = (case digitValue c of None \<Rightarrow> False | Some d \<Rightarrow> d < R)"

definition radixValue :: "nat \<Rightarrow> jsstring \<Rightarrow> nat" where
  "radixValue R z = foldl (\<lambda>a c. a * R + (case digitValue c of None \<Rightarrow> 0 | Some d \<Rightarrow> d)) 0 z"

definition parseDigits :: "bool \<Rightarrow> nat \<Rightarrow> jsstring \<Rightarrow> jsnum" where
  "parseDigits neg R s =
     (let z = takeWhile (isRadixDigit R) s
      in if z = [] then NaN else Num ((if neg then - 1 else 1) * int (radixValue R z)))"

definition parseRadix :: "bool \<Rightarrow> jsstring \<Rightarrow> jsnum" where
  "parseRadix neg s =
     (if take 2 s = [48, 120] \<or> take 2 s = [48, 88] then parseDigits neg 16 (drop 2 s)
      else parseDigits neg 10 s)"

definition parseInt :: "jsstring \<Rightarrow> jsnum" where
  "parseInt str =
     (let s = dropWhile isSpace str
      in if take 1 s = [45] then parseRadix True (drop 1 s)
         else if take 1 s = [43] then parseRadix False (drop 1 s)
         else parseRadix False s)"

section \<open>The utterance parser\<close>

subsection \<open>A backtracking matcher for the regular expression of \<^verbatim>\<open>parseOrder\<close>\<close>

text \<open>
  The pattern of the source is
  \<^verbatim>\<open>/(?:([\u0E00-\u0E7F]+)\s+)?KW\s*([\u0E00-\u0E7F]+)\s*(\d+)\s*([\u0E00-\u0E7F]+)?\s*(?:DL\s*([\u0E00-\u0E7F]+))?/i\<close>
  with \<^verbatim>\<open>KW\<close> the four-letter order keyword and \<^verbatim>\<open>DL\<close> the six-letter deliver-by
  keyword. Its constructs are: a literal, a greedy \<^verbatim>\<open>+\<close> or \<^verbatim>\<open>*\<close> over a character
  class, a capture group, a greedy \<^verbatim>\<open>?\<close> over a group, and concatenation.

  The flag \<^verbatim>\<open>i\<close> changes nothing here: no Thai letter, digit or white-space character
  has a case mapping, and no other character is mapped onto one of them.

  A matcher state is the input that is left and the captures made so far. \<open>ms r s\<close> lists
  every state the backtracking matcher of ECMAScript can reach from \<open>s\<close> by matching \<open>r\<close>,
  in the order in which it tries them: a greedy quantifier tries the longest run first. The
  match the engine reports is the first of the list.
\<close>

datatype cls = Thai | Space | Digit

fun inCls :: "cls \<Rightarrow> jschar \<Rightarrow> bool" where
  "inCls Thai c = isThai c"
| "inCls Space c = isSpace c"
| "inCls Digit c = isDigit c"

datatype re =
    Lit jsstring
  | Plus cls
  | Star cls
  | Cap nat re
  | Opt re
  | Cat re re

type_synonym captures = "nat \<Rightarrow> jsstring option"
type_synonym mstate = "jsstring \<times> captures"

fun ms :: "re \<Rightarrow> mstate \<Rightarrow> mstate list" where
  "ms (Lit l) (xs, c) =
     (if take (length l) xs = l then [(drop (length l) xs, c)] else [])"
| "ms (Plus k) (xs, c) =
     map (\<lambda>n. (drop n xs, c)) (rev [1 ..< Suc (length (takeWhile (inCls k) xs))])"
| "ms (Star k) (xs, c) =
     map (\<lambda>n. (drop n xs, c)) (rev [0 ..< Suc (length (takeWhile (inCls k) xs))])"
| "ms (Cap i r) (xs, c) =
     map (\<lambda>(ys, c'). (ys, c'(i \<mapsto> take (length xs - length ys) xs))) (ms r (xs, c))"
| "ms (Opt r) (xs, c) =
     filter (\<lambda>(ys, c'). length ys < length xs) (ms r (xs, c)) @ [(xs, c)]"
| "ms (Cat r1 r2) s = concat (map (ms r2) (ms r1 s))"

text \<open>\<^verbatim>\<open>text.match(regex)\<close> without the flag \<^verbatim>\<open>g\<close>: the match is tried at every start
  index from 0 to the length of the text, and the first index where it succeeds wins.
  The result is the array of captures, or \<^verbatim>\<open>null\<close>.\<close>

fun search :: "re \<Rightarrow> jsstring \<Rightarrow> captures option" where
  "search r [] = (case ms r ([], Map.empty) of [] \<Rightarrow> None | s # _ \<Rightarrow> Some (snd s))"
| "search r (x # xs) =
     (case ms r (x # xs, Map.empty) of [] \<Rightarrow> search r xs | s # _ \<Rightarrow> Some (snd s))"

definition kwOrder :: jsstring where
  "kwOrder = [3626, 3633, 3656, 3591]"

definition kwDeliver :: jsstring where
  "kwDeliver = [3626, 3656, 3591, 3650, 3604, 3618]"

definition orderRegex :: re where
  "orderRegex =
     Cat (Opt (Cat (Cap 1 (Plus Thai)) (Plus Space)))
    (Cat (Lit kwOrder)
    (Cat (Star Space)
    (Cat (Cap 2 (Plus Thai))
    (Cat (Star Space)
    (Cat (Cap 3 (Plus Digit))
    (Cat (Star Space)
    (Cat (Opt (Cap 4 (Plus Thai)))
    (Cat (Star Space)
         (Opt (Cat (Lit kwDeliver) (Cat (Star Space) (Cap 5 (Plus Thai)))))))))))))"

subsection \<open>The order intent\<close>

text \<open>Lines 101 to 108 of \<^verbatim>\<open>parseOrder\<close>: the five locals read from the match.
  \<open>orDefault m d\<close> is \<^verbatim>\<open>m || d\<close> for a capture \<open>m\<close>: an absent capture
  (\<^verbatim>\<open>undefined\<close>) and the empty string are both falsy. Groups 2 and 3 are not optional
  in the pattern, so a match always carries them (lemma \<open>search_groups\<close> below).\<close>

record intent =
  customer :: jsstring
  item :: jsstring
  qty :: jsnum
  unit :: jsstring
  deliver :: jsstring

definition defaultCustomer :: jsstring where
  "defaultCustomer = [3621, 3641, 3585, 3588, 3657, 3634, 3652, 3617, 3656, 3619, 3632, 3610, 3640]"

definition defaultUnit :: jsstring where
  "defaultUnit = [3594, 3636, 3657, 3609]"

definition defaultDeliver :: jsstring where
  "defaultDeliver = [3652, 3617, 3656, 3619, 3632, 3610, 3640]"

definition orDefault :: "jsstring option \<Rightarrow> jsstring \<Rightarrow> jsstring" where
  "orDefault m d = (case m of None \<Rightarrow> d | Some s \<Rightarrow> if s = [] then d else s)"

definition parse :: "jsstring \<Rightarrow> intent option" where
  "parse text =
     (case search orderRegex text of
        None \<Rightarrow> None
      | Some m \<Rightarrow>
          (case (m 2, m 3) of
             (Some it, Some digits) \<Rightarrow>
               Some \<lparr> customer = orDefault (m 1) defaultCustomer,
                      item = it,
                      qty = parseInt digits,
                      unit = orDefault (m 4) defaultUnit,
                      deliver = orDefault (m 5) defaultDeliver \<rparr>
           | _ \<Rightarrow> None))"

section \<open>The spreadsheet\<close>

text \<open>
  The ledger is a spreadsheet reached through the Sheets client: the stock table (range
  \<^verbatim>\<open>A:E\<close>, columns item, unit, unused, stock, price) and the orders table (range
  \<^verbatim>\<open>A:K\<close>). \<^verbatim>\<open>values.get\<close> returns the rows of a table as arrays of strings, a row
  being as long as its last filled cell. The program reads the orders table only for its
  number of rows, so its rows are kept as the values that were appended.

  Every call of the client may raise. The world carries the outcomes of the calls to come
  (\<open>faults\<close>: \<open>True\<close> for a call that raises, every call after the end of the list
  succeeds), the log of the calls made (\<open>calls\<close>), and the time \<^verbatim>\<open>new Date()\<close> reads.
  A client that was never created (\<^verbatim>\<open>sheets\<close> is \<^verbatim>\<open>null\<close>) raises at every use, like
  a service whose every call fails.
\<close>

type_synonym row = "jsstring list"

datatype jsval = JStr jsstring | JNum jsnum

datatype sheet = StockSheet | OrderSheet

datatype call = ValuesGet sheet | ValuesUpdate nat | ValuesAppend

datatype error = ApiError call | VoiceError

record world =
  stockRows :: "row list"
  orderRows :: "jsval list list"
  clock :: jsstring
  faults :: "bool list"
  calls :: "call list"

definition raisesNext :: "world \<Rightarrow> bool" where
  "raisesNext w = (case faults w of [] \<Rightarrow> False | b # bs \<Rightarrow> b)"

definition request :: "call \<Rightarrow> world \<Rightarrow> bool \<times> world" where
  "request c w = (raisesNext w, w\<lparr>faults := drop 1 (faults w), calls := calls w @ [c]\<rparr>)"

text \<open>A world in which no call to come raises.\<close>

definition reliable :: "world \<Rightarrow> bool" where
  "reliable w = (True \<notin> set (faults w))"

text \<open>Writing one cell of column D. Row numbers of the sheet start at 1. A number is
  stored and read back as its decimal digits; \<^verbatim>\<open>NaN\<close> is \<^verbatim>\<open>null\<close> in the JSON body
  of the request, which leaves the cell as it is. A cell beyond the end of its row, or a
  row beyond the end of the table, is reached through empty cells and rows.\<close>

definition setAt :: "'a \<Rightarrow> 'a list \<Rightarrow> nat \<Rightarrow> 'a \<Rightarrow> 'a list" where
  "setAt blank xs i v = (xs @ replicate (Suc i - length xs) blank)[i := v]"

definition rowAt :: "row list \<Rightarrow> nat \<Rightarrow> row" where
  "rowAt rows i = (if i < length rows then rows ! i else [])"

definition writeD :: "row list \<Rightarrow> nat \<Rightarrow> jsnum \<Rightarrow> row list" where
  "writeD rows n v =
     (case v of
        NaN \<Rightarrow> rows
      | Num k \<Rightarrow>
          if n = 0 then rows
          else setAt [] rows (n - 1) (setAt [] (rowAt rows (n - 1)) 3 (numToString v)))"

definition valuesGetStock :: "world \<Rightarrow> (error + row list) \<times> world" where
  "valuesGetStock w =
     (case request (ValuesGet StockSheet) w of
        (bad, w') \<Rightarrow>
          if bad then (Inl (ApiError (ValuesGet StockSheet)), w') else (Inr (stockRows w'), w'))"

definition valuesUpdateD :: "nat \<Rightarrow> jsnum \<Rightarrow> world \<Rightarrow> (error + unit) \<times> world" where
  "valuesUpdateD n v w =
     (case request (ValuesUpdate n) w of
        (bad, w') \<Rightarrow>
          if bad then (Inl (ApiError (ValuesUpdate n)), w')
          else (Inr (), w'\<lparr>stockRows := writeD (stockRows w') n v\<rparr>))"

definition valuesGetOrders :: "world \<Rightarrow> (error + jsval list list) \<times> world" where
  "valuesGetOrders w =
     (case request (ValuesGet OrderSheet) w of
        (bad, w') \<Rightarrow>
          if bad then (Inl (ApiError (ValuesGet OrderSheet)), w') else (Inr (orderRows w'), w'))"

definition valuesAppend :: "jsval list \<Rightarrow> world \<Rightarrow> (error + unit) \<times> world" where
  "valuesAppend r w =
     (case request ValuesAppend w of
        (bad, w') \<Rightarrow>
          if bad then (Inl (ApiError ValuesAppend), w')
          else (Inr (), w'\<lparr>orderRows := orderRows w' @ [r]\<rparr>))"

section \<open>The ledger functions\<close>

subsection \<open>\<^verbatim>\<open>getStock\<close>\<close>

text \<open>\<open>cellAt r i\<close> is \<^verbatim>\<open>row[i]\<close>, \<^verbatim>\<open>undefined\<close> beyond the end of the array.
  \<open>rowMatches\<close> is the test \<^verbatim>\<open>row[0] === item && row[1] === unit\<close>, and \<open>numCell r i\<close>
  is \<^verbatim>\<open>parseInt(row[i] || 0)\<close>: a missing or empty cell is read as the number 0, whose
  string is \<^verbatim>\<open>"0"\<close>. \<open>scanStock\<close> is the loop over the rows: the first row that matches
  decides, no row gives zeros.\<close>

definition cellAt :: "row \<Rightarrow> nat \<Rightarrow> jsstring option" where
  "cellAt r i = (if i < length r then Some (r ! i) else None)"

definition rowMatches :: "row \<Rightarrow> jsstring \<Rightarrow> jsstring \<Rightarrow> bool" where
  "rowMatches r it un = (cellAt r 0 = Some it \<and> cellAt r 1 = Some un)"

definition numCell :: "row \<Rightarrow> nat \<Rightarrow> jsnum" where
  "numCell r i =
     parseInt (case cellAt r i of None \<Rightarrow> [48] | Some s \<Rightarrow> if s = [] then [48] else s)"

record stockData =
  stock :: jsnum
  price :: jsnum

fun scanStock :: "row list \<Rightarrow> jsstring \<Rightarrow> jsstring \<Rightarrow> stockData" where
  "scanStock [] it un = \<lparr> stock = Num 0, price = Num 0 \<rparr>"
| "scanStock (r # rs) it un =
     (if rowMatches r it un then \<lparr> stock = numCell r 3, price = numCell r 4 \<rparr>
      else scanStock rs it un)"

text \<open>The \<^verbatim>\<open>catch\<close> of \<^verbatim>\<open>getStock\<close> logs the exception and throws it again.\<close>

definition getStock :: "jsstring \<Rightarrow> jsstring \<Rightarrow> world \<Rightarrow> (error + stockData) \<times> world" where
  "getStock it un w =
     (case valuesGetStock w of
        (Inl e, w1) \<Rightarrow> (Inl e, w1)
      | (Inr rows, w1) \<Rightarrow> (Inr (scanStock rows it un), w1))"

subsection \<open>\<^verbatim>\<open>updateStock\<close>\<close>

text \<open>\<open>findRow rows it un i\<close> is the loop over the indices, started at \<open>i\<close>: the index
  of the first matching row. The cell written is \<^verbatim>\<open>D${i + 1}\<close>. The \<^verbatim>\<open>catch\<close> of
  \<^verbatim>\<open>updateStock\<close> logs the exception and returns: nothing is thrown to the caller.\<close>

fun findRow :: "row list \<Rightarrow> jsstring \<Rightarrow> jsstring \<Rightarrow> nat \<Rightarrow> nat option" where
  "findRow [] it un i = None"
| "findRow (r # rs) it un i =
     (if rowMatches r it un then Some i else findRow rs it un (Suc i))"

definition updateStock :: "jsstring \<Rightarrow> jsstring \<Rightarrow> jsnum \<Rightarrow> world \<Rightarrow> world" where
  "updateStock it un newStock w =
     (case valuesGetStock w of
        (Inl e, w1) \<Rightarrow> w1
      | (Inr rows, w1) \<Rightarrow>
          (case findRow rows it un 0 of
             None \<Rightarrow> w1
           | Some i \<Rightarrow>
               (case valuesUpdateD (i + 1) newStock w1 of
                  (Inl e, w2) \<Rightarrow> w2
                | (Inr u, w2) \<Rightarrow> w2)))"

subsection \<open>\<^verbatim>\<open>addOrder\<close>\<close>

text \<open>The order number is the number of rows read plus one. The \<^verbatim>\<open>catch\<close> of
  \<^verbatim>\<open>addOrder\<close> logs the exception and returns 0.\<close>

definition statusPending :: jsstring where
  "statusPending = [3619, 3629, 3604, 3635, 3648, 3609, 3636, 3609, 3585, 3634, 3619]"

definition orderRow ::
  "jsnum \<Rightarrow> jsstring \<Rightarrow> jsstring \<Rightarrow> jsstring \<Rightarrow> jsnum \<Rightarrow> jsstring \<Rightarrow> jsstring \<Rightarrow> jsnum \<Rightarrow> jsval list" where
  "orderRow orderNo now cust it q un del tot =
     [JNum orderNo, JStr now, JStr cust, JStr it, JNum q, JStr un, JStr [], JStr del,
      JStr statusPending, JStr [], JNum tot]"

definition addOrder ::
  "jsstring \<Rightarrow> jsnum \<Rightarrow> jsstring \<Rightarrow> jsstring \<Rightarrow> jsstring \<Rightarrow> jsnum \<Rightarrow> world \<Rightarrow> jsnum \<times> world" where
  "addOrder it q un cust del tot w =
     (case valuesGetOrders w of
        (Inl e, w1) \<Rightarrow> (Num 0, w1)
      | (Inr rows, w1) \<Rightarrow>
          (let orderNo = Num (int (length rows) + 1) in
           case valuesAppend (orderRow orderNo (clock w1) cust it q un del tot) w1 of
             (Inl e, w2) \<Rightarrow> (Num 0, w2)
           | (Inr u, w2) \<Rightarrow> (orderNo, w2)))"

section \<open>The order workflow\<close>

definition notUnderstood :: jsstring where
  "notUnderstood =
     [3652, 3617, 3656, 3648, 3586, 3657, 3634, 3651, 3592, 3588, 3635, 3626, 3633, 3656,
      3591, 3588, 3656, 3632]"

definition insufficientMsg :: "jsstring \<Rightarrow> jsstring" where
  "insufficientMsg it =
     [3626, 3605, 3655, 3629, 3585] @ it @ [3652, 3617, 3656, 3614, 3629, 33]"

definition confirmation ::
  "jsstring \<Rightarrow> jsstring \<Rightarrow> jsnum \<Rightarrow> jsstring \<Rightarrow> jsnum \<Rightarrow> jsstring \<Rightarrow> jsnum \<Rightarrow> jsstring" where
  "confirmation cust it q un tot del orderNo =
     cust @ [32, 3588, 3656, 3632, 33, 10] @ it @ [32] @ numToString q @ un @ [32, 61, 32]
     @ numToString tot @ [3647, 10, 3626, 3656, 3591, 3650, 3604, 3618, 32] @ del
     @ [10, 3619, 3627, 3633, 3626, 58, 32] @ numToString orderNo"

text \<open>\<^verbatim>\<open>parseOrder\<close>: the reply, or the exception that leaves the function, and the world
  after it.\<close>

definition parseOrder :: "jsstring \<Rightarrow> world \<Rightarrow> (error + jsstring) \<times> world" where
  "parseOrder text w =
     (case parse text of
        None \<Rightarrow> (Inr notUnderstood, w)
      | Some i \<Rightarrow>
          (case getStock (item i) (unit i) w of
             (Inl e, w1) \<Rightarrow> (Inl e, w1)
           | (Inr sd, w1) \<Rightarrow>
               if js_less (stock sd) (qty i) then (Inr (insufficientMsg (item i)), w1)
               else
                 (let tot = js_mul (price sd) (qty i) in
                  case addOrder (item i) (qty i) (unit i) (customer i) (deliver i) tot w1 of
                    (orderNo, w2) \<Rightarrow>
                      (Inr (confirmation (customer i) (item i) (qty i) (unit i) tot
                              (deliver i) orderNo),
                       updateStock (item i) (unit i) (js_sub (stock sd) (qty i)) w2))))"

subsection \<open>The webhook\<close>

text \<open>The handler of one text event: the reply handed to \<^verbatim>\<open>replyLine\<close>, which catches
  its own exceptions. An exception that leaves \<^verbatim>\<open>parseOrder\<close> is caught by the handler,
  which replies with a fixed error message.\<close>

definition errorReply :: jsstring where
  "errorReply =
     [3648, 3585, 3636, 3604, 3586, 3657, 3629, 3612, 3636, 3604, 3614, 3621, 3634, 3604,
      3616, 3634, 3618, 3651, 3609, 3619, 3632, 3610, 3610]"

definition handleTextEvent :: "jsstring \<Rightarrow> world \<Rightarrow> jsstring \<times> world" where
  "handleTextEvent text w =
     (case parseOrder text w of
        (Inl err, w') \<Rightarrow> (errorReply, w')
      | (Inr reply, w') \<Rightarrow> (reply, w'))"

text \<open>\<^verbatim>\<open>processVoice\<close>, the handler of one audio event. The audio is fetched and transcribed
  by services outside the program: \<open>heard\<close> is the transcript, or the exception of the fetch
  or of the transcription, and \<open>archiveFails\<close> tells whether the upload of the audio, which
  comes after the reply, raises. The result lists the texts handed to \<^verbatim>\<open>replyLine\<close>, in
  order. Every exception, that of \<^verbatim>\<open>parseOrder\<close> included, is caught by the \<^verbatim>\<open>catch\<close> of
  \<^verbatim>\<open>processVoice\<close> itself, which replies that the transcription failed.\<close>

definition sttFailed :: jsstring where
  "sttFailed =
     [83, 84, 84, 32, 3621, 3657, 3617, 3648, 3627, 3621, 3623, 32, 3621, 3629, 3591, 3626,
      3656, 3591, 32, 84, 101, 120, 116, 32, 3649, 3607, 3609]"

definition heardReply :: "jsstring \<Rightarrow> jsstring \<Rightarrow> jsstring" where
  "heardReply transcript reply =
     [3652, 3604, 3657, 3618, 3636, 3609, 58, 32, 34] @ transcript @ [34, 10] @ reply"

definition processVoice :: "error + jsstring \<Rightarrow> bool \<Rightarrow> world \<Rightarrow> jsstring list \<times> world" where
  "processVoice heard archiveFails w =
     (case heard of
        Inl e \<Rightarrow> ([sttFailed], w)
      | Inr transcript \<Rightarrow>
          (case parseOrder transcript w of
             (Inl e, w') \<Rightarrow> ([sttFailed], w')
           | (Inr reply, w') \<Rightarrow>
               (if archiveFails then [heardReply transcript reply, sttFailed]
                else [heardReply transcript reply], w')))"

section \<open>Notions used in the statements and proofs\<close>

text \<open>The capture groups of a pattern, and \<^verbatim>\<open>t.includes(k)\<close>: the text \<open>t\<close> contains
  the string \<open>k\<close>.\<close>

fun groups :: "re \<Rightarrow> nat set" where
  "groups (Lit l) = {}"
| "groups (Plus k) = {}"
| "groups (Star k) = {}"
| "groups (Cap i r) = insert i (groups r)"
| "groups (Opt r) = groups r"
| "groups (Cat a b) = groups a \<union> groups b"

fun contains :: "jsstring \<Rightarrow> jsstring \<Rightarrow> bool" where
  "contains [] k = (k = [])"
| "contains (x # xs) k = (take (length k) (x # xs) = k \<or> contains xs k)"

text \<open>\<open>nullable r\<close>: the pattern \<open>r\<close> matches the empty string, whatever follows.
  \<open>orderShape text it d\<close>: the text holds the order keyword, white space (possibly none),
  the run of Thai letters \<open>it\<close>, white space (possibly none) and the run of digits \<open>d\<close>,
  and the run of digits ends there: the text ends after \<open>d\<close>, or goes on with a character
  that is no digit.\<close>

fun nullable :: "re \<Rightarrow> bool" where
  "nullable (Lit l) = (l = [])"
| "nullable (Plus k) = False"
| "nullable (Star k) = True"
| "nullable (Cap i r) = nullable r"
| "nullable (Opt r) = True"
| "nullable (Cat a b) = (nullable a \<and> nullable b)"

definition orderShape :: "jsstring \<Rightarrow> jsstring \<Rightarrow> jsstring \<Rightarrow> bool" where
  "orderShape text it d =
     (\<exists>a sp1 sp2 rest.
        text = a @ kwOrder @ sp1 @ it @ sp2 @ d @ rest
        \<and> (\<forall>c \<in> set sp1. isSpace c) \<and> it \<noteq> [] \<and> (\<forall>c \<in> set it. isThai c)
        \<and> (\<forall>c \<in> set sp2. isSpace c) \<and> d \<noteq> [] \<and> (\<forall>c \<in> set d. isDigit c)
        \<and> (rest = [] \<or> \<not> isDigit (hd rest)))"

section \<open>Example inputs\<close>

text \<open>The item \<open>lime\<close> and the unit \<open>fruit\<close> are two Thai words of five and three letters.
  \<open>orderFive\<close> is the sentence made of the order keyword, the item, the digit \<^verbatim>\<open>5\<close> and the
  unit, with no space; \<open>orderZero\<close> is the same sentence with the digit \<^verbatim>\<open>0\<close>. \<open>shop cell fs\<close>
  is a world whose stock table has the one row of the item and the unit, with \<open>cell\<close> in the
  stock column and the price \<^verbatim>\<open>10\<close>, an empty orders table, and the outcomes \<open>fs\<close> for the
  calls to come.\<close>

definition lime :: jsstring where
  "lime = [3617, 3632, 3609, 3634, 3623]"

definition fruit :: jsstring where
  "fruit = [3621, 3641, 3585]"

definition orderFive :: jsstring where
  "orderFive = [3626, 3633, 3656, 3591, 3617, 3632, 3609, 3634, 3623, 53, 3621, 3641, 3585]"

definition orderZero :: jsstring where
  "orderZero = [3626, 3633, 3656, 3591, 3617, 3632, 3609, 3634, 3623, 48, 3621, 3641, 3585]"

definition shop :: "jsstring \<Rightarrow> bool list \<Rightarrow> world" where
  "shop cell fs =
     \<lparr> stockRows = [[lime, fruit, [], cell, [49, 48]]], orderRows = [], clock = [],
       faults = fs, calls = [] \<rparr>"

section \<open>The matcher: what a match implies\<close>

lemma contains_iff: "contains t k \<longleftrightarrow> (\<exists>a b. t = a @ k @ b)"
proof (induction t)
  case Nil
  then show ?case by auto
next
  case (Cons x xs)
  show ?case
  proof
    assume "contains (x # xs) k"
    then consider "take (length k) (x # xs) = k" | "contains xs k" by auto
    then show "\<exists>a b. x # xs = a @ k @ b"
    proof cases
      case 1
      then have "x # xs = [] @ k @ drop (length k) (x # xs)"
        by (metis append_Nil append_take_drop_id)
      then show ?thesis by blast
    next
      case 2
      then obtain a b where "xs = a @ k @ b" using Cons.IH by blast
      then have "x # xs = (x # a) @ k @ b" by simp
      then show ?thesis by blast
    qed
  next
    assume "\<exists>a b. x # xs = a @ k @ b"
    then obtain a b where ab: "x # xs = a @ k @ b" by blast
    show "contains (x # xs) k"
    proof (cases a)
      case Nil
      then have "take (length k) (x # xs) = k" using ab by simp
      then show ?thesis by simp
    next
      case (Cons y ys)
      then have "xs = ys @ k @ b" using ab by simp
      then have "contains xs k" using Cons.IH by blast
      then show ?thesis by simp
    qed
  qed
qed

lemma ms_suffix: "(ys, c') \<in> set (ms r (xs, c)) \<Longrightarrow> \<exists>pre. xs = pre @ ys"
proof (induction r arbitrary: xs c ys c')
  case (Lit l)
  then have "ys = drop (length l) xs" by (auto split: if_splits)
  then have "xs = take (length l) xs @ ys" by simp
  then show ?case by blast
next
  case (Plus k)
  then obtain n where "ys = drop n xs" by auto
  then have "xs = take n xs @ ys" by simp
  then show ?case by blast
next
  case (Star k)
  then obtain n where "ys = drop n xs" by auto
  then have "xs = take n xs @ ys" by simp
  then show ?case by blast
next
  case (Cap i r)
  then obtain c0 where "(ys, c0) \<in> set (ms r (xs, c))" by auto
  then show ?case using Cap.IH by blast
next
  case (Opt r)
  then consider "ys = xs" | c0 where "(ys, c') \<in> set (ms r (xs, c))" by auto
  then show ?case using Opt.IH by cases auto
next
  case (Cat r1 r2)
  then obtain zs c1 where a: "(zs, c1) \<in> set (ms r1 (xs, c))" and b: "(ys, c') \<in> set (ms r2 (zs, c1))"
    by auto
  from Cat.IH(1)[OF a] obtain p where "xs = p @ zs" by blast
  moreover from Cat.IH(2)[OF b] obtain q where "zs = q @ ys" by blast
  ultimately have "xs = (p @ q) @ ys" by simp
  then show ?case by blast
qed

lemma ms_frame: "(ys, c') \<in> set (ms r (xs, c)) \<Longrightarrow> i \<notin> groups r \<Longrightarrow> c' i = c i"
proof (induction r arbitrary: xs c ys c')
  case (Cap j r)
  then obtain c0 where a: "(ys, c0) \<in> set (ms r (xs, c))" and b: "c' = c0(j \<mapsto> take (length xs - length ys) xs)"
    by auto
  from Cap.prems(2) have "i \<noteq> j" "i \<notin> groups r" by auto
  with Cap.IH[OF a] b show ?case by simp
next
  case (Opt r)
  then consider "c' = c" | "(ys, c') \<in> set (ms r (xs, c))" by auto
  then show ?case using Opt by cases auto
next
  case (Cat r1 r2)
  then obtain zs c1 where a: "(zs, c1) \<in> set (ms r1 (xs, c))" and b: "(ys, c') \<in> set (ms r2 (zs, c1))"
    by auto
  from Cat.prems(2) have "i \<notin> groups r1" "i \<notin> groups r2" by auto
  with Cat.IH(1)[OF a] Cat.IH(2)[OF b] show ?case by simp
qed (auto split: if_splits)

lemma ms_Cat_D:
  "(ys, c') \<in> set (ms (Cat r1 r2) (xs, c)) \<Longrightarrow>
     \<exists>zs c1. (zs, c1) \<in> set (ms r1 (xs, c)) \<and> (ys, c') \<in> set (ms r2 (zs, c1))"
  by auto

lemma ms_Cap_Plus_D:
  assumes "(ys, c') \<in> set (ms (Cap i (Plus k)) (xs, c))"
  shows "\<exists>n. 1 \<le> n \<and> n \<le> length (takeWhile (inCls k) xs) \<and> ys = drop n xs \<and> c' = c(i \<mapsto> take n xs)"
proof -
  from assms obtain n where n: "1 \<le> n" "n \<le> length (takeWhile (inCls k) xs)" "ys = drop n xs"
    and c': "c' = c(i \<mapsto> take (length xs - length ys) xs)"
    by auto
  have "length (takeWhile (inCls k) xs) \<le> length xs" by (rule length_takeWhile_le)
  with n have "length xs - length ys = n" by simp
  with n c' show ?thesis by auto
qed

lemma take_takeWhile_all: "n \<le> length (takeWhile P xs) \<Longrightarrow> \<forall>x \<in> set (take n xs). P x"
proof -
  assume a: "n \<le> length (takeWhile P xs)"
  have "take n xs = take n (takeWhile P xs)"
    by (metis a append_eq_conv_conj take_all_iff take_take min.absorb1 takeWhile_dropWhile_id take_append diff_is_0_eq' take_0 append_Nil2 length_take)
  then show ?thesis by (metis in_set_takeD set_takeWhileD)
qed

lemma search_D:
  "search r t = Some m \<Longrightarrow> \<exists>a suf ys. t = a @ suf \<and> (ys, m) \<in> set (ms r (suf, Map.empty))"
proof (induction t)
  case Nil
  then obtain s ss where "ms r ([], Map.empty) = s # ss" "m = snd s" by (auto split: list.splits)
  then have "(fst s, m) \<in> set (ms r ([], Map.empty))" by (metis list.set_intros(1) prod.collapse)
  then show ?case by blast
next
  case (Cons x xs)
  show ?case
  proof (cases "ms r (x # xs, Map.empty)")
    case Nil
    then have "search r xs = Some m" using Cons.prems by simp
    then obtain a suf ys where "xs = a @ suf" "(ys, m) \<in> set (ms r (suf, Map.empty))"
      using Cons.IH by blast
    then have "x # xs = (x # a) @ suf" by simp
    then show ?thesis using \<open>(ys, m) \<in> set (ms r (suf, Map.empty))\<close> by blast
  next
    case (Cons s ss)
    then have "m = snd s" using Cons.prems by simp
    then have "(fst s, m) \<in> set (ms r (x # xs, Map.empty))" using Cons by (metis list.set_intros(1) prod.collapse)
    then have "x # xs = [] @ (x # xs) \<and> (fst s, m) \<in> set (ms r (x # xs, Map.empty))" by simp
    then show ?thesis by blast
  qed
qed


lemma ms_CatE:
  assumes "(ys, c') \<in> set (ms (Cat r1 r2) (xs, c))"
  obtains zs c1 where "(zs, c1) \<in> set (ms r1 (xs, c))" and "(ys, c') \<in> set (ms r2 (zs, c1))"
  using assms by auto

lemma orderRegex_steps:
  assumes "(ys, m) \<in> set (ms orderRegex (suf, c0))"
  obtains xs1 c1 xs2 c2 xs3 c3 xs4 c4 xs5 c5 xs6 c6 where
    "(xs1, c1) \<in> set (ms (Opt (Cat (Cap 1 (Plus Thai)) (Plus Space))) (suf, c0))" and
    "(xs2, c2) \<in> set (ms (Lit kwOrder) (xs1, c1))" and
    "(xs3, c3) \<in> set (ms (Star Space) (xs2, c2))" and
    "(xs4, c4) \<in> set (ms (Cap 2 (Plus Thai)) (xs3, c3))" and
    "(xs5, c5) \<in> set (ms (Star Space) (xs4, c4))" and
    "(xs6, c6) \<in> set (ms (Cap 3 (Plus Digit)) (xs5, c5))" and
    "(ys, m) \<in> set (ms (Cat (Star Space) (Cat (Opt (Cap 4 (Plus Thai))) (Cat (Star Space)
           (Opt (Cat (Lit kwDeliver) (Cat (Star Space) (Cap 5 (Plus Thai)))))))) (xs6, c6))"
proof -
  from assms[unfolded orderRegex_def] obtain xs1 c1 where
    s1: "(xs1, c1) \<in> set (ms (Opt (Cat (Cap 1 (Plus Thai)) (Plus Space))) (suf, c0))" and
    t1: "(ys, m) \<in> set (ms (Cat (Lit kwOrder) (Cat (Star Space) (Cat (Cap 2 (Plus Thai))
           (Cat (Star Space) (Cat (Cap 3 (Plus Digit)) (Cat (Star Space)
           (Cat (Opt (Cap 4 (Plus Thai))) (Cat (Star Space)
           (Opt (Cat (Lit kwDeliver) (Cat (Star Space) (Cap 5 (Plus Thai)))))))))))))
         (xs1, c1))"
    by (rule ms_CatE)
  from t1 obtain xs2 c2 where
    s2: "(xs2, c2) \<in> set (ms (Lit kwOrder) (xs1, c1))" and
    t2: "(ys, m) \<in> set (ms (Cat (Star Space) (Cat (Cap 2 (Plus Thai))
           (Cat (Star Space) (Cat (Cap 3 (Plus Digit)) (Cat (Star Space)
           (Cat (Opt (Cap 4 (Plus Thai))) (Cat (Star Space)
           (Opt (Cat (Lit kwDeliver) (Cat (Star Space) (Cap 5 (Plus Thai))))))))))))
         (xs2, c2))"
    by (rule ms_CatE)
  from t2 obtain xs3 c3 where
    s3: "(xs3, c3) \<in> set (ms (Star Space) (xs2, c2))" and
    t3: "(ys, m) \<in> set (ms (Cat (Cap 2 (Plus Thai))
           (Cat (Star Space) (Cat (Cap 3 (Plus Digit)) (Cat (Star Space)
           (Cat (Opt (Cap 4 (Plus Thai))) (Cat (Star Space)
           (Opt (Cat (Lit kwDeliver) (Cat (Star Space) (Cap 5 (Plus Thai)))))))))))
         (xs3, c3))"
    by (rule ms_CatE)
  from t3 obtain xs4 c4 where
    s4: "(xs4, c4) \<in> set (ms (Cap 2 (Plus Thai)) (xs3, c3))" and
    t4: "(ys, m) \<in> set (ms (Cat (Star Space) (Cat (Cap 3 (Plus Digit)) (Cat (Star Space)
           (Cat (Opt (Cap 4 (Plus Thai))) (Cat (Star Space)
           (Opt (Cat (Lit kwDeliver) (Cat (Star Space) (Cap 5 (Plus Thai))))))))))
         (xs4, c4))"
    by (rule ms_CatE)
  from t4 obtain xs5 c5 where
    s5: "(xs5, c5) \<in> set (ms (Star Space) (xs4, c4))" and
    t5: "(ys, m) \<in> set (ms (Cat (Cap 3 (Plus Digit)) (Cat (Star Space)
           (Cat (Opt (Cap 4 (Plus Thai))) (Cat (Star Space)
           (Opt (Cat (Lit kwDeliver) (Cat (Star Space) (Cap 5 (Plus Thai)))))))))
         (xs5, c5))"
    by (rule ms_CatE)
  from t5 obtain xs6 c6 where
    s6: "(xs6, c6) \<in> set (ms (Cap 3 (Plus Digit)) (xs5, c5))" and
    s7: "(ys, m) \<in> set (ms (Cat (Star Space) (Cat (Opt (Cap 4 (Plus Thai))) (Cat (Star Space)
           (Opt (Cat (Lit kwDeliver) (Cat (Star Space) (Cap 5 (Plus Thai)))))))) (xs6, c6))"
    by (rule ms_CatE)
  from s1 s2 s3 s4 s5 s6 s7 show thesis by (rule that)
qed

lemma orderRegex_keyword:
  assumes "(ys, m) \<in> set (ms orderRegex (suf, c0))"
  shows "\<exists>a b. suf = a @ kwOrder @ b"
proof -
  from assms obtain xs1 c1 xs2 c2 where
    s1: "(xs1, c1) \<in> set (ms (Opt (Cat (Cap 1 (Plus Thai)) (Plus Space))) (suf, c0))" and
    s2: "(xs2, c2) \<in> set (ms (Lit kwOrder) (xs1, c1))"
    by (rule orderRegex_steps)
  from ms_suffix[OF s1] obtain a where a: "suf = a @ xs1" by blast
  from s2 have "take (length kwOrder) xs1 = kwOrder" by (auto split: if_splits)
  then have "xs1 = kwOrder @ drop (length kwOrder) xs1" by (metis append_take_drop_id)
  with a have "suf = a @ kwOrder @ drop (length kwOrder) xs1" by simp
  then show ?thesis by blast
qed

lemma orderRegex_groups:
  assumes "(ys, m) \<in> set (ms orderRegex (suf, c0))"
  shows "\<exists>it d a b. m 2 = Some it \<and> m 3 = Some d \<and> d \<noteq> [] \<and> (\<forall>c \<in> set d. isDigit c)
           \<and> suf = a @ d @ b"
proof -
  from assms obtain xs1 c1 xs2 c2 xs3 c3 xs4 c4 xs5 c5 xs6 c6 where
    s1: "(xs1, c1) \<in> set (ms (Opt (Cat (Cap 1 (Plus Thai)) (Plus Space))) (suf, c0))" and
    s2: "(xs2, c2) \<in> set (ms (Lit kwOrder) (xs1, c1))" and
    s3: "(xs3, c3) \<in> set (ms (Star Space) (xs2, c2))" and
    s4: "(xs4, c4) \<in> set (ms (Cap 2 (Plus Thai)) (xs3, c3))" and
    s5: "(xs5, c5) \<in> set (ms (Star Space) (xs4, c4))" and
    s6: "(xs6, c6) \<in> set (ms (Cap 3 (Plus Digit)) (xs5, c5))" and
    s7: "(ys, m) \<in> set (ms (Cat (Star Space) (Cat (Opt (Cap 4 (Plus Thai))) (Cat (Star Space)
           (Opt (Cat (Lit kwDeliver) (Cat (Star Space) (Cap 5 (Plus Thai)))))))) (xs6, c6))"
    by (rule orderRegex_steps)
  from ms_Cap_Plus_D[OF s4] obtain n4 where c4: "c4 = c3(2 \<mapsto> take n4 xs3)" by blast
  from ms_Cap_Plus_D[OF s6] obtain n where n: "1 \<le> n" "n \<le> length (takeWhile (inCls Digit) xs5)"
    and c6: "c6 = c5(3 \<mapsto> take n xs5)" by blast
  have "c5 2 = c4 2" using ms_frame[OF s5, of 2] by simp
  then have "c6 2 = Some (take n4 xs3)" using c4 c6 by simp
  moreover have "m 2 = c6 2" using ms_frame[OF s7, of 2] by simp
  ultimately have m2: "m 2 = Some (take n4 xs3)" by simp
  have "m 3 = c6 3" using ms_frame[OF s7, of 3] by simp
  then have m3: "m 3 = Some (take n xs5)" using c6 by simp
  have "length (takeWhile (inCls Digit) xs5) \<le> length xs5" by (rule length_takeWhile_le)
  with n have ne: "take n xs5 \<noteq> []" by auto
  have dig: "\<forall>c \<in> set (take n xs5). isDigit c"
    using take_takeWhile_all[OF n(2)] by simp
  from ms_suffix[OF s1] obtain p1 where p1: "suf = p1 @ xs1" by blast
  from ms_suffix[OF s2] obtain p2 where p2: "xs1 = p2 @ xs2" by blast
  from ms_suffix[OF s3] obtain p3 where p3: "xs2 = p3 @ xs3" by blast
  from ms_suffix[OF s4] obtain p4 where p4: "xs3 = p4 @ xs4" by blast
  from ms_suffix[OF s5] obtain p5 where p5: "xs4 = p5 @ xs5" by blast
  have eq: "suf = (p1 @ p2 @ p3 @ p4 @ p5) @ take n xs5 @ drop n xs5"
    using p1 p2 p3 p4 p5 by simp
  have "m 2 = Some (take n4 xs3) \<and> m 3 = Some (take n xs5) \<and> take n xs5 \<noteq> []
          \<and> (\<forall>c \<in> set (take n xs5). isDigit c)
          \<and> suf = (p1 @ p2 @ p3 @ p4 @ p5) @ take n xs5 @ drop n xs5"
    using m2 m3 ne dig eq by (intro conjI)
  then show ?thesis by (intro exI)
qed

lemma search_orderRegex_keyword:
  assumes "search orderRegex t = Some m"
  shows "contains t kwOrder"
proof -
  from search_D[OF assms] obtain a suf ys where t: "t = a @ suf"
    and r: "(ys, m) \<in> set (ms orderRegex (suf, Map.empty))" by blast
  from orderRegex_keyword[OF r] obtain b c where "suf = b @ kwOrder @ c" by blast
  with t have "t = (a @ b) @ kwOrder @ c" by simp
  then show ?thesis unfolding contains_iff by blast
qed

lemma search_groups:
  assumes "search orderRegex t = Some m"
  shows "\<exists>it d. m 2 = Some it \<and> m 3 = Some d \<and> d \<noteq> [] \<and> (\<forall>c \<in> set d. isDigit c)
           \<and> contains t d"
proof -
  from search_D[OF assms] obtain a suf ys where t: "t = a @ suf"
    and r: "(ys, m) \<in> set (ms orderRegex (suf, Map.empty))" by blast
  from orderRegex_groups[OF r] obtain it d b c where
    g: "m 2 = Some it" "m 3 = Some d" "d \<noteq> []" "\<forall>c \<in> set d. isDigit c" and "suf = b @ d @ c"
    by blast
  with t have "t = (a @ b) @ d @ c" by simp
  then have "contains t d" unfolding contains_iff by blast
  with g show ?thesis by blast
qed

subsection \<open>The match reported: the whole run of digits\<close>

lemma ms_nullable: "nullable r \<Longrightarrow> ms r s \<noteq> []"
proof (induction r arbitrary: s)
  case (Lit l)
  then show ?case by (cases s) simp
next
  case (Plus k)
  then show ?case by simp
next
  case (Star k)
  then show ?case by (cases s) simp
next
  case (Cap i r)
  then show ?case by (cases s) simp
next
  case (Opt r)
  then show ?case by (cases s) simp
next
  case (Cat r1 r2)
  then have "ms r1 s \<noteq> []" by simp
  then obtain t ts where t: "ms r1 s = t # ts" by (cases "ms r1 s") auto
  have "ms r2 t \<noteq> []" using Cat by simp
  with t show ?case by simp
qed

lemma hd_concat_map:
  assumes "concat (map f l) \<noteq> []"
  shows "\<exists>t \<in> set l. f t \<noteq> [] \<and> hd (concat (map f l)) = hd (f t)"
  using assms
proof (induction l)
  case Nil
  then show ?case by simp
next
  case (Cons t ts)
  show ?case
  proof (cases "f t = []")
    case True
    with Cons show ?thesis by simp
  next
    case False
    then show ?thesis by simp
  qed
qed

lemma ms_Cat_hdE:
  assumes "ms (Cat r1 r2) s \<noteq> []"
  obtains zs c1 where "(zs, c1) \<in> set (ms r1 s)" and "ms r2 (zs, c1) \<noteq> []"
    and "hd (ms (Cat r1 r2) s) = hd (ms r2 (zs, c1))"
proof -
  from assms have "concat (map (ms r2) (ms r1 s)) \<noteq> []" by simp
  from hd_concat_map[OF this] obtain t where "t \<in> set (ms r1 s)" "ms r2 t \<noteq> []"
    "hd (concat (map (ms r2) (ms r1 s))) = hd (ms r2 t)" by blast
  then show thesis using that[of "fst t" "snd t"] by simp
qed

lemma ms_Lit_D: "(ys, c') \<in> set (ms (Lit l) (xs, c)) \<Longrightarrow> xs = l @ ys \<and> c' = c"
proof -
  assume a: "(ys, c') \<in> set (ms (Lit l) (xs, c))"
  then have t: "take (length l) xs = l" and y: "ys = drop (length l) xs" and c: "c' = c"
    by (auto split: if_splits)
  have "xs = take (length l) xs @ drop (length l) xs" by simp
  with t y c show ?thesis by simp
qed

lemma ms_Star_D:
  assumes "(ys, c') \<in> set (ms (Star k) (xs, c))"
  shows "\<exists>sp. xs = sp @ ys \<and> (\<forall>x \<in> set sp. inCls k x) \<and> c' = c"
proof -
  from assms obtain n where n: "n \<le> length (takeWhile (inCls k) xs)" "ys = drop n xs" "c' = c"
    by (auto simp del: upt_Suc simp: less_Suc_eq_le)
  have "xs = take n xs @ ys" using n(2) by simp
  moreover have "\<forall>x \<in> set (take n xs). inCls k x" using take_takeWhile_all[OF n(1)] .
  ultimately show ?thesis using n(3) by blast
qed

lemma ms_Cap_Plus_D2:
  assumes "(ys, c') \<in> set (ms (Cap i (Plus k)) (xs, c))"
  shows "\<exists>it. xs = it @ ys \<and> it \<noteq> [] \<and> (\<forall>x \<in> set it. inCls k x) \<and> c' = c(i \<mapsto> it)"
proof -
  from ms_Cap_Plus_D[OF assms] obtain n where n: "1 \<le> n" "n \<le> length (takeWhile (inCls k) xs)"
    "ys = drop n xs" "c' = c(i \<mapsto> take n xs)" by blast
  have "length (takeWhile (inCls k) xs) \<le> length xs" by (rule length_takeWhile_le)
  with n have ne: "take n xs \<noteq> []" by auto
  have "xs = take n xs @ ys" using n(3) by simp
  moreover have "\<forall>x \<in> set (take n xs). inCls k x" using take_takeWhile_all[OF n(2)] .
  ultimately show ?thesis using ne n(4) by blast
qed

lemma take_length_takeWhile: "take (length (takeWhile P xs)) xs = takeWhile P xs"
  by (induction xs) auto

lemma drop_length_takeWhile: "drop (length (takeWhile P xs)) xs = dropWhile P xs"
  by (induction xs) auto

lemma dropWhile_hd: "dropWhile P xs = [] \<or> \<not> P (hd (dropWhile P xs))"
  by (induction xs) auto

lemma inCls_Digit: "inCls Digit = isDigit"
  by (rule ext) simp

lemma ms_Cap_Plus_first:
  assumes "takeWhile (inCls k) xs \<noteq> []"
  shows "\<exists>rest. ms (Cap i (Plus k)) (xs, c)
           = (dropWhile (inCls k) xs, c(i \<mapsto> takeWhile (inCls k) xs)) # rest"
proof -
  let ?N = "length (takeWhile (inCls k) xs)"
  have N1: "Suc 0 \<le> ?N" using assms by (cases "takeWhile (inCls k) xs") simp_all
  have Nle: "?N \<le> length xs" by (rule length_takeWhile_le)
  have "[Suc 0 ..< Suc ?N] = [Suc 0 ..< ?N] @ [?N]"
    using N1 by (simp only: upt_Suc if_True)
  then have up: "rev [1 ..< Suc ?N] = ?N # rev [1 ..< ?N]"
    by (simp only: One_nat_def rev_append rev.simps append.simps)
  have "ms (Plus k) (xs, c) = (drop ?N xs, c) # map (\<lambda>n. (drop n xs, c)) (rev [1 ..< ?N])"
    unfolding ms.simps up by simp
  then have "ms (Cap i (Plus k)) (xs, c)
      = (drop ?N xs, c(i \<mapsto> take (length xs - length (drop ?N xs)) xs))
        # map (\<lambda>(ys, c'). (ys, c'(i \<mapsto> take (length xs - length ys) xs)))
              (map (\<lambda>n. (drop n xs, c)) (rev [1 ..< ?N]))"
    unfolding ms.simps(4) by simp
  moreover have "length xs - length (drop ?N xs) = ?N" using Nle by simp
  ultimately show ?thesis
    by (simp add: take_length_takeWhile drop_length_takeWhile)
qed

lemma ms_digits_first:
  assumes ne: "ms (Cat (Cap 3 (Plus Digit)) R) (xs, c) \<noteq> []"
    and nu: "nullable R" and g: "3 \<notin> groups R" "2 \<notin> groups R"
  shows "takeWhile isDigit xs \<noteq> []
       \<and> snd (hd (ms (Cat (Cap 3 (Plus Digit)) R) (xs, c))) 3 = Some (takeWhile isDigit xs)
       \<and> snd (hd (ms (Cat (Cap 3 (Plus Digit)) R) (xs, c))) 2 = c 2"
proof -
  have tw: "takeWhile (inCls Digit) xs \<noteq> []"
  proof
    assume "takeWhile (inCls Digit) xs = []"
    then have "ms (Cap 3 (Plus Digit)) (xs, c) = []" by simp
    then have "ms (Cat (Cap 3 (Plus Digit)) R) (xs, c) = []" by simp
    with ne show False by blast
  qed
  define s6 where "s6 = (dropWhile (inCls Digit) xs, c(3 \<mapsto> takeWhile (inCls Digit) xs))"
  from ms_Cap_Plus_first[OF tw, of 3 c] obtain rest where
    m: "ms (Cap 3 (Plus Digit)) (xs, c) = s6 # rest" unfolding s6_def by blast
  have r6: "ms R s6 \<noteq> []" using nu by (rule ms_nullable)
  have "ms (Cat (Cap 3 (Plus Digit)) R) (xs, c) = ms R s6 @ concat (map (ms R) rest)"
    unfolding ms.simps(6) m by simp
  then have h: "hd (ms (Cat (Cap 3 (Plus Digit)) R) (xs, c)) = hd (ms R s6)"
    using r6 by simp
  have "hd (ms R s6) \<in> set (ms R s6)" using r6 by (rule hd_in_set)
  then have mem: "(fst (hd (ms R s6)), snd (hd (ms R s6)))
          \<in> set (ms R (dropWhile (inCls Digit) xs, c(3 \<mapsto> takeWhile (inCls Digit) xs)))"
    unfolding s6_def by simp
  have a: "snd (hd (ms R s6)) 3 = Some (takeWhile (inCls Digit) xs)"
    using ms_frame[OF mem g(1)] by simp
  have b: "snd (hd (ms R s6)) 2 = c 2"
    using ms_frame[OF mem g(2)] by simp
  show ?thesis unfolding h using tw a b by (simp add: inCls_Digit)
qed

lemma search_hd:
  "search r t = Some m \<Longrightarrow>
     \<exists>a suf. t = a @ suf \<and> ms r (suf, Map.empty) \<noteq> [] \<and> m = snd (hd (ms r (suf, Map.empty)))"
proof (induction t)
  case Nil
  then have "ms r ([], Map.empty) \<noteq> [] \<and> m = snd (hd (ms r ([], Map.empty)))"
    by (auto split: list.splits)
  then have f: "[] = [] @ [] \<and> ms r ([], Map.empty) \<noteq> [] \<and> m = snd (hd (ms r ([], Map.empty)))"
    by simp
  show ?case by (rule exI[of _ "[]"], rule exI[of _ "[]"], rule f)
next
  case (Cons x xs)
  show ?case
  proof (cases "ms r (x # xs, Map.empty)")
    case Nil
    then have "search r xs = Some m" using Cons.prems by simp
    then obtain a suf where "xs = a @ suf" "ms r (suf, Map.empty) \<noteq> []"
      "m = snd (hd (ms r (suf, Map.empty)))" using Cons.IH by blast
    then have f: "x # xs = (x # a) @ suf \<and> ms r (suf, Map.empty) \<noteq> []
               \<and> m = snd (hd (ms r (suf, Map.empty)))" by simp
    show ?thesis by (rule exI[of _ "x # a"], rule exI[of _ suf], rule f)
  next
    case (Cons s ss)
    then have "m = snd s" using Cons.prems by simp
    with Cons have f: "x # xs = [] @ (x # xs) \<and> ms r (x # xs, Map.empty) \<noteq> []
               \<and> m = snd (hd (ms r (x # xs, Map.empty)))" by simp
    show ?thesis by (rule exI[of _ "[]"], rule exI[of _ "x # xs"], rule f)
  qed
qed

lemma inCls_Space: "inCls Space = isSpace"
  by (rule ext) simp

lemma inCls_Thai: "inCls Thai = isThai"
  by (rule ext) simp

lemma search_orderShape:
  assumes "search orderRegex text = Some m"
  shows "\<exists>it d. m 2 = Some it \<and> m 3 = Some d \<and> orderShape text it d"
proof -
  define r7 where "r7 = Cat (Star Space) (Cat (Opt (Cap 4 (Plus Thai))) (Cat (Star Space)
           (Opt (Cat (Lit kwDeliver) (Cat (Star Space) (Cap 5 (Plus Thai)))))))"
  define r6 where "r6 = Cat (Cap 3 (Plus Digit)) r7"
  define r5 where "r5 = Cat (Star Space) r6"
  define r4 where "r4 = Cat (Cap 2 (Plus Thai)) r5"
  define r3 where "r3 = Cat (Star Space) r4"
  define r2 where "r2 = Cat (Lit kwOrder) r3"
  define r1 where "r1 = Opt (Cat (Cap 1 (Plus Thai)) (Plus Space))"
  have re: "orderRegex = Cat r1 r2"
    by (simp add: orderRegex_def r1_def r2_def r3_def r4_def r5_def r6_def r7_def)
  have n7: "nullable r7" by (simp add: r7_def)
  have g7: "3 \<notin> groups r7" "2 \<notin> groups r7" by (simp_all add: r7_def)
  from search_hd[OF assms] obtain a suf where t: "text = a @ suf"
    and ne: "ms (Cat r1 r2) (suf, Map.empty) \<noteq> []"
    and m: "m = snd (hd (ms (Cat r1 r2) (suf, Map.empty)))"
    unfolding re by blast
  from ne obtain xs1 c1 where s1: "(xs1, c1) \<in> set (ms r1 (suf, Map.empty))"
    and ne1: "ms (Cat (Lit kwOrder) r3) (xs1, c1) \<noteq> []"
    and h1: "hd (ms (Cat r1 r2) (suf, Map.empty)) = hd (ms (Cat (Lit kwOrder) r3) (xs1, c1))"
    unfolding r2_def by (rule ms_Cat_hdE)
  from ne1 obtain xs2 c2 where s2: "(xs2, c2) \<in> set (ms (Lit kwOrder) (xs1, c1))"
    and ne2: "ms (Cat (Star Space) r4) (xs2, c2) \<noteq> []"
    and h2: "hd (ms (Cat (Lit kwOrder) r3) (xs1, c1)) = hd (ms (Cat (Star Space) r4) (xs2, c2))"
    unfolding r3_def by (rule ms_Cat_hdE)
  from ne2 obtain xs3 c3 where s3: "(xs3, c3) \<in> set (ms (Star Space) (xs2, c2))"
    and ne3: "ms (Cat (Cap 2 (Plus Thai)) r5) (xs3, c3) \<noteq> []"
    and h3: "hd (ms (Cat (Star Space) r4) (xs2, c2)) = hd (ms (Cat (Cap 2 (Plus Thai)) r5) (xs3, c3))"
    unfolding r4_def by (rule ms_Cat_hdE)
  from ne3 obtain xs4 c4 where s4: "(xs4, c4) \<in> set (ms (Cap 2 (Plus Thai)) (xs3, c3))"
    and ne4: "ms (Cat (Star Space) r6) (xs4, c4) \<noteq> []"
    and h4: "hd (ms (Cat (Cap 2 (Plus Thai)) r5) (xs3, c3)) = hd (ms (Cat (Star Space) r6) (xs4, c4))"
    unfolding r5_def by (rule ms_Cat_hdE)
  from ne4 obtain xs5 c5 where s5: "(xs5, c5) \<in> set (ms (Star Space) (xs4, c4))"
    and ne5: "ms (Cat (Cap 3 (Plus Digit)) r7) (xs5, c5) \<noteq> []"
    and h5: "hd (ms (Cat (Star Space) r6) (xs4, c4)) = hd (ms (Cat (Cap 3 (Plus Digit)) r7) (xs5, c5))"
    unfolding r6_def by (rule ms_Cat_hdE)
  have mh: "m = snd (hd (ms (Cat (Cap 3 (Plus Digit)) r7) (xs5, c5)))"
    unfolding m h1 h2 h3 h4 h5 ..
  from ms_digits_first[OF ne5 n7 g7] mh
  have d: "takeWhile isDigit xs5 \<noteq> []" and m3: "m 3 = Some (takeWhile isDigit xs5)"
    and m2: "m 2 = c5 2" by simp_all
  from ms_suffix[OF s1] obtain p1 where p1: "suf = p1 @ xs1" by blast
  from ms_Lit_D[OF s2] have p2: "xs1 = kwOrder @ xs2" by simp
  from ms_Star_D[OF s3] obtain sp1 where p3: "xs2 = sp1 @ xs3"
    and sp1: "\<forall>x \<in> set sp1. isSpace x" and c3: "c3 = c2" by (auto simp: inCls_Space)
  from ms_Cap_Plus_D2[OF s4] obtain it where p4: "xs3 = it @ xs4" and it: "it \<noteq> []"
    "\<forall>x \<in> set it. isThai x" and c4: "c4 = c3(2 \<mapsto> it)" by (auto simp: inCls_Thai)
  from ms_Star_D[OF s5] obtain sp2 where p5: "xs4 = sp2 @ xs5"
    and sp2: "\<forall>x \<in> set sp2. isSpace x" and c5: "c5 = c4" by (auto simp: inCls_Space)
  have m2': "m 2 = Some it" using m2 c5 c4 by simp
  have x5: "xs5 = takeWhile isDigit xs5 @ dropWhile isDigit xs5" by simp
  have eq: "text = (a @ p1) @ kwOrder @ sp1 @ it @ sp2 @ takeWhile isDigit xs5 @ dropWhile isDigit xs5"
    using t p1 p2 p3 p4 p5 by simp
  have dig: "\<forall>c \<in> set (takeWhile isDigit xs5). isDigit c" by (meson set_takeWhileD)
  have "text = (a @ p1) @ kwOrder @ sp1 @ it @ sp2 @ takeWhile isDigit xs5 @ dropWhile isDigit xs5
      \<and> (\<forall>c \<in> set sp1. isSpace c) \<and> it \<noteq> [] \<and> (\<forall>c \<in> set it. isThai c)
      \<and> (\<forall>c \<in> set sp2. isSpace c) \<and> takeWhile isDigit xs5 \<noteq> []
      \<and> (\<forall>c \<in> set (takeWhile isDigit xs5). isDigit c)
      \<and> (dropWhile isDigit xs5 = [] \<or> \<not> isDigit (hd (dropWhile isDigit xs5)))"
    using eq sp1 it sp2 d dig dropWhile_hd[of isDigit xs5] by (intro conjI)
  then have "orderShape text it (takeWhile isDigit xs5)"
    unfolding orderShape_def by (intro exI)
  with m2' m3 show ?thesis by (intro exI conjI)
qed

section \<open>Reading and printing integers\<close>

lemma digit_not_space: "isDigit c \<Longrightarrow> \<not> isSpace c"
  by (auto simp: isDigit_def isSpace_def)

lemma digit_radix10: "isDigit c \<Longrightarrow> isRadixDigit 10 c"
  by (auto simp: isDigit_def isRadixDigit_def digitValue_def)

lemma digits_no_hex_prefix:
  assumes "\<forall>c \<in> set d. isDigit c"
  shows "take 2 d \<noteq> [48, 120] \<and> take 2 d \<noteq> [48, 88]"
proof -
  have "\<not> isDigit 120" "\<not> isDigit 88" by (simp_all add: isDigit_def)
  moreover have "\<forall>c \<in> set (take 2 d). isDigit c" using assms by (meson in_set_takeD)
  ultimately show ?thesis by auto
qed

lemma parseDigits_all:
  assumes "d \<noteq> []" and "\<forall>c \<in> set d. isDigit c"
  shows "parseDigits neg 10 d = Num ((if neg then - 1 else 1) * int (radixValue 10 d))"
proof -
  have tw: "takeWhile (isRadixDigit 10) d = d"
    using assms(2) digit_radix10 by (simp add: takeWhile_eq_all_conv)
  show ?thesis unfolding parseDigits_def tw using assms(1) by simp
qed

lemma parseInt_digits:
  assumes "d \<noteq> []" and "\<forall>c \<in> set d. isDigit c"
  shows "parseInt d = Num (int (radixValue 10 d))"
proof -
  from assms obtain x xs where d: "d = x # xs" by (cases d) auto
  with assms have x: "isDigit x" by simp
  have sp: "dropWhile isSpace d = d" using x d digit_not_space by simp
  have sg: "take 1 d \<noteq> [43]" "take 1 d \<noteq> [45]" using x d by (auto simp: isDigit_def)
  have "parseInt d = parseRadix False d"
    unfolding parseInt_def sp Let_def using sg by simp
  also have "\<dots> = parseDigits False 10 d"
    unfolding parseRadix_def using digits_no_hex_prefix[OF assms(2)] by simp
  also have "\<dots> = Num (int (radixValue 10 d))"
    using parseDigits_all[OF assms, of False] by simp
  finally show ?thesis .
qed

lemma digitsOf_nonempty: "digitsOf n \<noteq> []"
  by (subst digitsOf.simps) simp

lemma digitsOf_digits: "\<forall>c \<in> set (digitsOf n). isDigit c"
proof (induction n rule: digitsOf.induct)
  case (1 n)
  show ?case
  proof (cases "n < 10")
    case True
    then show ?thesis by (subst digitsOf.simps) (simp add: isDigit_def)
  next
    case False
    have "n mod 10 < 10" by simp
    then have "isDigit (48 + n mod 10)" unfolding isDigit_def by linarith
    with False 1 show ?thesis by (subst digitsOf.simps) simp
  qed
qed

lemma radixValue_snoc:
  "radixValue R (xs @ [c]) = radixValue R xs * R + (case digitValue c of None \<Rightarrow> 0 | Some d \<Rightarrow> d)"
  by (simp add: radixValue_def)

lemma digitValue_digit: "k < 10 \<Longrightarrow> digitValue (48 + k) = Some k"
  by (simp add: digitValue_def)

lemma radixValue_digitsOf: "radixValue 10 (digitsOf n) = n"
proof (induction n rule: digitsOf.induct)
  case (1 n)
  show ?case
  proof (cases "n < 10")
    case True
    then show ?thesis by (subst digitsOf.simps) (simp add: radixValue_def digitValue_digit)
  next
    case False
    have "radixValue 10 (digitsOf (n div 10) @ [48 + n mod 10]) = (n div 10) * 10 + n mod 10"
      using 1 False by (simp add: radixValue_snoc digitValue_digit)
    with False show ?thesis by (subst digitsOf.simps) simp
  qed
qed

lemma parseInt_digitsOf: "parseInt (digitsOf n) = Num (int n)"
  using parseInt_digits[OF digitsOf_nonempty digitsOf_digits] by (simp add: radixValue_digitsOf)

lemma parseInt_minus:
  assumes "d \<noteq> []" and "\<forall>c \<in> set d. isDigit c"
  shows "parseInt (45 # d) = Num (- int (radixValue 10 d))"
proof -
  have sp: "dropWhile isSpace (45 # d) = 45 # d" by (simp add: isSpace_def)
  have "parseInt (45 # d) = parseRadix True d"
    unfolding parseInt_def sp Let_def by simp
  also have "\<dots> = parseDigits True 10 d"
    unfolding parseRadix_def using digits_no_hex_prefix[OF assms(2)] by simp
  also have "\<dots> = Num (- int (radixValue 10 d))"
    using parseDigits_all[OF assms, of True] by simp
  finally show ?thesis .
qed

lemma parseInt_numToString: "parseInt (numToString (Num n)) = Num n"
proof (cases "n < 0")
  case False
  then show ?thesis by (simp add: numToString_def parseInt_digitsOf)
next
  case True
  have "parseInt (45 # digitsOf (nat (- n))) = Num (- int (nat (- n)))"
    using parseInt_minus[OF digitsOf_nonempty digitsOf_digits] by (simp add: radixValue_digitsOf)
  with True show ?thesis by (simp add: numToString_def)
qed

lemma radixValue_less:
  "\<forall>c \<in> set d. isDigit c \<Longrightarrow> radixValue 10 d < 10 ^ length d"
proof (induction d rule: rev_induct)
  case Nil
  show ?case by (simp add: radixValue_def)
next
  case (snoc c d)
  then have c: "isDigit c" and ih: "radixValue 10 d < 10 ^ length d" by simp_all
  from c have k: "(case digitValue c of None \<Rightarrow> 0 | Some k \<Rightarrow> k) \<le> 9"
    by (auto simp: isDigit_def digitValue_def)
  from ih have "Suc (radixValue 10 d) \<le> 10 ^ length d" by simp
  then have "10 * Suc (radixValue 10 d) \<le> 10 * 10 ^ length d" by (rule mult_le_mono2)
  with k show ?case by (simp add: radixValue_snoc)
qed


section \<open>The ledger: scanning, writing and reading back\<close>

lemma numToString_nonempty: "numToString v \<noteq> []"
  by (cases v) (simp_all add: numToString_def digitsOf_nonempty)

lemma reliable_next: "reliable w \<Longrightarrow> \<not> raisesNext w"
  by (cases "faults w") (auto simp: reliable_def raisesNext_def)

lemma reliable_request: "reliable w \<Longrightarrow> reliable (snd (request c w))"
  by (auto simp: reliable_def request_def dest: in_set_dropD)

lemma findRow_from:
  "findRow rows it un i = map_option (\<lambda>k. k + i) (findRow rows it un 0)"
proof (induction rows arbitrary: i)
  case Nil
  show ?case by simp
next
  case (Cons r rs)
  have "findRow rs it un (Suc i) = map_option (\<lambda>k. k + Suc i) (findRow rs it un 0)"
    by (rule Cons.IH)
  moreover have "findRow rs it un (Suc 0) = map_option (\<lambda>k. k + Suc 0) (findRow rs it un 0)"
    by (rule Cons.IH)
  ultimately show ?case by (simp add: option.map_comp comp_def)
qed

lemma findRow_Cons:
  "findRow (r # rs) it un 0 =
     (if rowMatches r it un then Some 0 else map_option Suc (findRow rs it un 0))"
  using findRow_from[of rs it un "Suc 0"] by (simp add: comp_def)

lemma findRow_less: "findRow rows it un 0 = Some k \<Longrightarrow> k < length rows"
  by (induction rows arbitrary: k)
     (auto simp: findRow_Cons simp del: findRow.simps(2) split: if_splits)

lemma scanStock_findRow:
  "scanStock rows it un =
     (case findRow rows it un 0 of
        None \<Rightarrow> \<lparr> stock = Num 0, price = Num 0 \<rparr>
      | Some k \<Rightarrow> \<lparr> stock = numCell (rows ! k) 3, price = numCell (rows ! k) 4 \<rparr>)"
  by (induction rows)
     (auto simp: findRow_Cons simp del: findRow.simps(2) split: option.splits)

lemma length_setAt: "length (setAt b r i v) = max (length r) (Suc i)"
  by (simp add: setAt_def max_def)

lemma nth_setAt_same: "setAt b r i v ! i = v"
  by (simp add: setAt_def)

lemma nth_setAt_other: "j < length r \<Longrightarrow> j \<noteq> i \<Longrightarrow> setAt b r i v ! j = r ! j"
  by (simp add: setAt_def nth_append)

lemma cellAt_setAt_same: "cellAt (setAt b r i v) i = Some v"
  by (simp add: cellAt_def length_setAt nth_setAt_same)

lemma rowMatches_setAt:
  assumes "rowMatches r it un"
  shows "rowMatches (setAt [] r 3 v) it un"
proof -
  from assms have l: "1 < length r" and c: "r ! 0 = it" "r ! 1 = un"
    by (auto simp: rowMatches_def cellAt_def split: if_splits)
  from l have l0: "0 < length r" by (cases r) simp_all
  have "setAt [] r 3 v ! 0 = r ! 0"
    by (rule nth_setAt_other[OF l0]) simp
  moreover have "setAt [] r 3 v ! 1 = r ! 1"
    by (rule nth_setAt_other[OF l]) simp
  ultimately have "setAt [] r 3 v ! 0 = r ! 0" "setAt [] r 3 v ! 1 = r ! 1" by simp_all
  with l c show ?thesis by (simp add: rowMatches_def cellAt_def length_setAt)
qed

lemma numCell_setAt_3:
  "numCell (setAt [] r 3 (numToString (Num n))) 3 = Num n"
  by (simp add: numCell_def cellAt_setAt_same numToString_nonempty parseInt_numToString)

lemma numCell_setAt_4:
  "numCell (setAt [] r 3 v) 4 = numCell r 4"
proof (cases "4 < length r")
  case True
  then show ?thesis by (simp add: numCell_def cellAt_def length_setAt nth_setAt_other)
next
  case False
  then show ?thesis by (simp add: numCell_def cellAt_def length_setAt)
qed

lemma writeD_inside:
  "j < length rows \<Longrightarrow>
     writeD rows (Suc j) (Num n) = rows[j := setAt [] (rows ! j) 3 (numToString (Num n))]"
  by (simp add: writeD_def setAt_def rowAt_def)

lemma findRow_update:
  assumes "findRow rows it un 0 = Some k"
  shows "findRow (rows[k := setAt [] (rows ! k) 3 v]) it un 0 = Some k"
  using assms
proof (induction rows arbitrary: k)
  case Nil
  then show ?case by simp
next
  case (Cons r rs)
  show ?case
  proof (cases "rowMatches r it un")
    case True
    then have "k = 0" using Cons.prems by simp
    with True show ?thesis by (simp add: rowMatches_setAt)
  next
    case False
    then obtain j where j: "findRow rs it un 0 = Some j" "k = Suc j"
      using Cons.prems by (auto simp: findRow_Cons simp del: findRow.simps(2))
    with Cons.IH[OF j(1)] False show ?thesis
      by (simp add: findRow_Cons del: findRow.simps(2))
  qed
qed

lemma findRow_writeD:
  assumes "findRow rows it un 0 = Some k"
  shows "findRow (writeD rows (Suc k) v) it un 0 = Some k"
proof (cases v)
  case (Num n)
  then show ?thesis
    using findRow_update[OF assms] writeD_inside[OF findRow_less[OF assms]] by simp
next
  case NaN
  then show ?thesis using assms by (simp add: writeD_def)
qed

lemma scanStock_writeD:
  assumes "findRow rows it un 0 = Some k"
  shows "scanStock (writeD rows (Suc k) (Num n)) it un =
           \<lparr> stock = Num n, price = price (scanStock rows it un) \<rparr>"
proof -
  have k: "k < length rows" using assms by (rule findRow_less)
  show ?thesis
    unfolding scanStock_findRow findRow_writeD[OF assms] using assms k
    by (simp add: writeD_inside numCell_setAt_3 numCell_setAt_4)
qed

lemma getStock_eq:
  "getStock it un w =
     (if raisesNext w then Inl (ApiError (ValuesGet StockSheet))
      else Inr (scanStock (stockRows w) it un),
      snd (request (ValuesGet StockSheet) w))"
  by (simp add: getStock_def valuesGetStock_def request_def)

lemma updateStock_reliable:
  assumes "reliable w"
  shows "stockRows (updateStock it un v w) =
           (case findRow (stockRows w) it un 0 of
              None \<Rightarrow> stockRows w
            | Some k \<Rightarrow> writeD (stockRows w) (Suc k) v)"
    and "calls (updateStock it un v w) =
           (case findRow (stockRows w) it un 0 of
              None \<Rightarrow> calls w @ [ValuesGet StockSheet]
            | Some k \<Rightarrow> calls w @ [ValuesGet StockSheet, ValuesUpdate (Suc k)])"
    and "reliable (updateStock it un v w)"
proof -
  have a: "\<not> raisesNext w" using assms by (rule reliable_next)
  have r1: "reliable (snd (request (ValuesGet StockSheet) w))"
    using assms by (rule reliable_request)
  have b: "\<not> raisesNext (snd (request (ValuesGet StockSheet) w))"
    using r1 by (rule reliable_next)
  have r2: "reliable (snd (request c (snd (request (ValuesGet StockSheet) w))))" for c
    using r1 by (rule reliable_request)
  have e: "updateStock it un v w =
      (case findRow (stockRows w) it un 0 of
         None \<Rightarrow> snd (request (ValuesGet StockSheet) w)
       | Some k \<Rightarrow> (snd (request (ValuesUpdate (Suc k)) (snd (request (ValuesGet StockSheet) w))))
                     \<lparr>stockRows := writeD (stockRows w) (Suc k) v\<rparr>)"
    using a b by (simp add: updateStock_def valuesGetStock_def valuesUpdateD_def request_def
        split: option.splits)
  show "stockRows (updateStock it un v w) =
           (case findRow (stockRows w) it un 0 of
              None \<Rightarrow> stockRows w
            | Some k \<Rightarrow> writeD (stockRows w) (Suc k) v)"
    by (simp add: e request_def split: option.splits)
  show "calls (updateStock it un v w) =
           (case findRow (stockRows w) it un 0 of
              None \<Rightarrow> calls w @ [ValuesGet StockSheet]
            | Some k \<Rightarrow> calls w @ [ValuesGet StockSheet, ValuesUpdate (Suc k)])"
    by (simp add: e request_def split: option.splits)
  show "reliable (updateStock it un v w)"
    using r1 r2 by (simp add: e reliable_def split: option.splits)
qed

lemma updateStock_orderRows: "orderRows (updateStock it un v w) = orderRows w"
  by (simp add: updateStock_def valuesGetStock_def valuesUpdateD_def request_def
        split: option.splits)

lemma addOrder_reliable:
  assumes "reliable w"
  shows "fst (addOrder it q un cust del tot w) = Num (int (length (orderRows w)) + 1)"
    and "orderRows (snd (addOrder it q un cust del tot w)) =
           orderRows w @ [orderRow (Num (int (length (orderRows w)) + 1)) (clock w) cust it q un del tot]"
    and "stockRows (snd (addOrder it q un cust del tot w)) = stockRows w"
    and "calls (snd (addOrder it q un cust del tot w)) = calls w @ [ValuesGet OrderSheet, ValuesAppend]"
    and "reliable (snd (addOrder it q un cust del tot w))"
proof -
  have a: "\<not> raisesNext w" using assms by (rule reliable_next)
  have r1: "reliable (snd (request (ValuesGet OrderSheet) w))"
    using assms by (rule reliable_request)
  have b: "\<not> raisesNext (snd (request (ValuesGet OrderSheet) w))"
    using r1 by (rule reliable_next)
  have r2: "reliable (snd (request ValuesAppend (snd (request (ValuesGet OrderSheet) w))))"
    using r1 by (rule reliable_request)
  have e: "addOrder it q un cust del tot w =
      (Num (int (length (orderRows w)) + 1),
       (snd (request ValuesAppend (snd (request (ValuesGet OrderSheet) w))))
         \<lparr>orderRows := orderRows w @ [orderRow (Num (int (length (orderRows w)) + 1)) (clock w) cust it q un del tot]\<rparr>)"
    using a b by (simp add: addOrder_def valuesGetOrders_def valuesAppend_def request_def Let_def)
  show "fst (addOrder it q un cust del tot w) = Num (int (length (orderRows w)) + 1)"
    by (simp add: e)
  show "orderRows (snd (addOrder it q un cust del tot w)) =
           orderRows w @ [orderRow (Num (int (length (orderRows w)) + 1)) (clock w) cust it q un del tot]"
    by (simp add: e)
  show "stockRows (snd (addOrder it q un cust del tot w)) = stockRows w"
    by (simp add: e request_def)
  show "calls (snd (addOrder it q un cust del tot w)) = calls w @ [ValuesGet OrderSheet, ValuesAppend]"
    by (simp add: e request_def)
  show "reliable (snd (addOrder it q un cust del tot w))"
    using r2 by (simp add: e reliable_def)
qed

lemma parseOrder_accept:
  assumes "parse text = Some i" and "\<not> raisesNext w"
    and "\<not> js_less (stock (scanStock (stockRows w) (item i) (unit i))) (qty i)"
  shows "parseOrder text w =
     (let sd = scanStock (stockRows w) (item i) (unit i);
          tot = js_mul (price sd) (qty i);
          a = addOrder (item i) (qty i) (unit i) (customer i) (deliver i) tot
                (snd (request (ValuesGet StockSheet) w))
      in (Inr (confirmation (customer i) (item i) (qty i) (unit i) tot (deliver i) (fst a)),
          updateStock (item i) (unit i) (js_sub (stock sd) (qty i)) (snd a)))"
  using assms by (simp add: parseOrder_def getStock_eq Let_def split: prod.splits)

section \<open>Evaluating the examples\<close>

lemmas run_parse = parse_def orderRegex_def kwOrder_def isThai_def isSpace_def isDigit_def
      parseInt_def parseRadix_def parseDigits_def orDefault_def isRadixDigit_def digitValue_def
      radixValue_def

lemma parse_orderFive:
  "parse orderFive = Some \<lparr> customer = defaultCustomer, item = lime, qty = Num 5,
                            unit = fruit, deliver = defaultDeliver \<rparr>"
  by (simp add: run_parse orderFive_def lime_def fruit_def)

lemma parse_orderZero:
  "parse orderZero = Some \<lparr> customer = defaultCustomer, item = lime, qty = Num 0,
                            unit = fruit, deliver = defaultDeliver \<rparr>"
  by (simp add: run_parse orderZero_def lime_def fruit_def)

lemmas run_scan = rowMatches_def cellAt_def numCell_def parseInt_def parseRadix_def
  parseDigits_def isRadixDigit_def digitValue_def radixValue_def isSpace_def

lemmas run_ledger = parseOrder_def getStock_def valuesGetStock_def request_def raisesNext_def
  rowMatches_def cellAt_def numCell_def parseInt_def parseRadix_def parseDigits_def
  isRadixDigit_def digitValue_def radixValue_def isSpace_def addOrder_def valuesGetOrders_def
  valuesAppend_def updateStock_def valuesUpdateD_def writeD_def setAt_def rowAt_def
  numToString_def handleTextEvent_def Let_def

section \<open>The parser\<close>

lemma parse_None_iff: "parse t = None \<longleftrightarrow> search orderRegex t = None"
proof (cases "search orderRegex t")
  case None
  then show ?thesis by (simp add: parse_def)
next
  case (Some m)
  from search_groups[OF Some] obtain it d where "m 2 = Some it" "m 3 = Some d" by blast
  with Some show ?thesis by (simp add: parse_def)
qed

lemma parse_SomeD:
  assumes "parse t = Some i"
  obtains m it d where "search orderRegex t = Some m" and "m 2 = Some it" and "m 3 = Some d"
    and "i = \<lparr> customer = orDefault (m 1) defaultCustomer, item = it, qty = parseInt d,
               unit = orDefault (m 4) defaultUnit, deliver = orDefault (m 5) defaultDeliver \<rparr>"
  using assms by (auto simp: parse_def split: option.splits)

lemma orDefault_nonempty: "d \<noteq> [] \<Longrightarrow> orDefault m d \<noteq> []"
  by (simp add: orDefault_def split: option.splits)

text \<open>Claim C4. A text that does not contain the order keyword is not matched: the parser
  gives no intent, and \<^verbatim>\<open>parseOrder\<close> returns exactly the not-understood message and
  leaves the world as it was: no call of the spreadsheet client is made (the log of calls
  is part of the world), whatever the ledger holds and whether or not it would fail.\<close>

theorem no_keyword_not_understood:
  assumes "\<not> contains text kwOrder"
  shows "parse text = None \<and> parseOrder text w = (Inr notUnderstood, w)"
proof -
  have "search orderRegex text = None"
  proof (cases "search orderRegex text")
    case (Some m)
    then have "contains text kwOrder" by (rule search_orderRegex_keyword)
    with assms show ?thesis by simp
  qed simp
  then have "parse text = None" by (simp add: parse_None_iff)
  then show ?thesis by (simp add: parseOrder_def)
qed

theorem no_keyword_not_understood_witness:
  "\<not> contains [104, 101, 108, 108, 111] kwOrder
   \<and> parse [104, 101, 108, 108, 111] = None
   \<and> parseOrder [104, 101, 108, 108, 111]
        \<lparr> stockRows = [], orderRows = [], clock = [], faults = [True], calls = [] \<rparr>
      = (Inr notUnderstood,
         \<lparr> stockRows = [], orderRows = [], clock = [], faults = [True], calls = [] \<rparr>)"
proof -
  have h: "\<not> contains [104, 101, 108, 108, 111] kwOrder" by (simp add: kwOrder_def)
  from no_keyword_not_understood[OF h] h show ?thesis by simp
qed

text \<open>Claim C6, as the spec states it, fails: the digit run \<^verbatim>\<open>0\<close> is a quantity
  field the parser accepts, and the intent it produces has quantity 0, which is not
  positive. The input is the order keyword, a five-letter item name and the digit
  \<^verbatim>\<open>0\<close>.\<close>

theorem zero_quantity_parsed:
  "parse [3626, 3633, 3656, 3591, 3617, 3632, 3609, 3634, 3623, 48]
     = Some \<lparr> customer = defaultCustomer, item = [3617, 3632, 3609, 3634, 3623], qty = Num 0,
              unit = defaultUnit, deliver = defaultDeliver \<rparr>"
  by (simp add: parse_def orderRegex_def kwOrder_def isThai_def isSpace_def isDigit_def
      parseInt_def parseRadix_def parseDigits_def orDefault_def isRadixDigit_def digitValue_def
      radixValue_def)

text \<open>Claim C6, amended. The text of every intent the parser produces has the shape
  \<open>orderShape\<close>: the order keyword, the item of the intent, and a run of digits \<open>d\<close> that
  goes on to the last digit. The quantity of the intent is the base-10 value of the whole
  run \<open>d\<close>, a natural number that may be 0, whenever that value is a safe integer (beyond,
  the program holds a rounded double). A text that has no such shape, for any item and any
  run of digits, yields no intent.\<close>

theorem parse_quantity:
  "(parse text = Some i \<longrightarrow>
      (\<exists>d. orderShape text (item i) d
           \<and> (int (radixValue 10 d) \<le> maxSafe \<longrightarrow> qty i = Num (int (radixValue 10 d)))))
   \<and> ((\<forall>it d. \<not> orderShape text it d) \<longrightarrow> parse text = None)"
proof -
  have a: "\<exists>d. orderShape text (item j) d \<and> qty j = Num (int (radixValue 10 d))"
    if "parse text = Some j" for j
  proof -
    from that obtain m it d where m: "search orderRegex text = Some m"
      and it: "m 2 = Some it" and d: "m 3 = Some d"
      and j: "j = \<lparr> customer = orDefault (m 1) defaultCustomer, item = it, qty = parseInt d,
               unit = orDefault (m 4) defaultUnit, deliver = orDefault (m 5) defaultDeliver \<rparr>"
      by (rule parse_SomeD)
    from search_orderShape[OF m] it d have sh: "orderShape text it d" by auto
    then have "d \<noteq> []" "\<forall>c \<in> set d. isDigit c" unfolding orderShape_def by auto
    then have "parseInt d = Num (int (radixValue 10 d))" by (rule parseInt_digits)
    with sh j show ?thesis by auto
  qed
  have b: "parse text = None" if no: "\<forall>it d. \<not> orderShape text it d"
  proof (cases "parse text")
    case (Some j)
    from a[OF Some] no show ?thesis by blast
  qed simp
  from a[of i] b show ?thesis by blast
qed

text \<open>Witness for claim C6: the order keyword, a five-letter item, the digits
  \<^verbatim>\<open>12\<close> and a three-letter unit give the quantity 12, the value of both digits; the
  keyword and the item with no digit give no intent.\<close>

theorem parse_quantity_witness:
  "parse [3626, 3633, 3656, 3591, 3617, 3632, 3609, 3634, 3623, 49, 50, 3621, 3641, 3585]
     = Some \<lparr> customer = defaultCustomer, item = [3617, 3632, 3609, 3634, 3623], qty = Num 12,
              unit = [3621, 3641, 3585], deliver = defaultDeliver \<rparr>
   \<and> (\<exists>d. orderShape [3626, 3633, 3656, 3591, 3617, 3632, 3609, 3634, 3623, 49, 50, 3621, 3641, 3585]
            [3617, 3632, 3609, 3634, 3623] d
          \<and> radixValue 10 d = 12)
   \<and> parse [3626, 3633, 3656, 3591, 3617, 3632, 3609, 3634, 3623] = None"
proof -
  let ?t = "[3626, 3633, 3656, 3591, 3617, 3632, 3609, 3634, 3623, 49, 50, 3621, 3641, 3585]"
  let ?i = "\<lparr> customer = defaultCustomer, item = [3617, 3632, 3609, 3634, 3623], qty = Num 12,
              unit = [3621, 3641, 3585], deliver = defaultDeliver \<rparr>"
  have p: "parse ?t = Some ?i"
    by (simp add: run_parse)
  have n: "\<forall>it d. \<not> orderShape [3626, 3633, 3656, 3591, 3617, 3632, 3609, 3634, 3623] it d"
  proof (intro allI notI)
    fix it d
    assume "orderShape [3626, 3633, 3656, 3591, 3617, 3632, 3609, 3634, 3623] it d"
    then obtain a sp1 sp2 rest where
      e: "[3626, 3633, 3656, 3591, 3617, 3632, 3609, 3634, 3623]
            = a @ kwOrder @ sp1 @ it @ sp2 @ d @ rest"
      and d: "d \<noteq> []" "\<forall>c \<in> set d. isDigit c"
      unfolding orderShape_def by blast
    from d(1) obtain c where c: "c \<in> set d" by (cases d) auto
    have "set (a @ kwOrder @ sp1 @ it @ sp2 @ d @ rest)
            = set [3626, 3633, 3656, 3591, 3617, 3632, 3609, 3634, 3623::nat]"
      using e by simp
    with c have "c \<in> set [3626, 3633, 3656, 3591, 3617, 3632, 3609, 3634, 3623::nat]" by auto
    moreover have "isDigit c" using c d(2) by blast
    ultimately show False by (auto simp: isDigit_def)
  qed
  from parse_quantity[of ?t ?i] p obtain d
    where sh: "orderShape ?t [3617, 3632, 3609, 3634, 3623] d"
      and v: "int (radixValue 10 d) \<le> maxSafe \<longrightarrow> Num 12 = Num (int (radixValue 10 d))"
    by auto
  from sh obtain a sp1 sp2 rest where
    e: "?t = a @ kwOrder @ sp1 @ [3617, 3632, 3609, 3634, 3623] @ sp2 @ d @ rest"
    and dg: "\<forall>c \<in> set d. isDigit c"
    unfolding orderShape_def by blast
  from arg_cong[OF e, of length] have len: "length d \<le> 14" by simp
  have "radixValue 10 d < 10 ^ length d" using dg by (rule radixValue_less)
  also have "(10::nat) ^ length d \<le> 10 ^ 14" using len by (rule power_increasing) simp
  finally have "int (radixValue 10 d) \<le> maxSafe" by (simp add: maxSafe_def)
  with v have "radixValue 10 d = 12" by simp
  with sh have "\<exists>d. orderShape ?t [3617, 3632, 3609, 3634, 3623] d \<and> radixValue 10 d = 12"
    by blast
  moreover from parse_quantity[of "[3626, 3633, 3656, 3591, 3617, 3632, 3609, 3634, 3623]" ?i] n
  have "parse [3626, 3633, 3656, 3591, 3617, 3632, 3609, 3634, 3623] = None" by blast
  ultimately show ?thesis using p by blast
qed

text \<open>Claim C9. When the text is matched and the group of the customer (1), of the unit
  (4) or of the delivery method (5) is absent from the match, the field of the intent is its
  default; and none of the three fields is ever empty.\<close>

theorem optional_groups_default:
  assumes "search orderRegex text = Some m" and "parse text = Some i"
  shows "(m 1 = None \<longrightarrow> customer i = defaultCustomer)
       \<and> (m 4 = None \<longrightarrow> unit i = defaultUnit)
       \<and> (m 5 = None \<longrightarrow> deliver i = defaultDeliver)
       \<and> customer i \<noteq> [] \<and> unit i \<noteq> [] \<and> deliver i \<noteq> []"
proof -
  from assms(2) obtain m' it d where "search orderRegex text = Some m'"
    and i: "i = \<lparr> customer = orDefault (m' 1) defaultCustomer, item = it, qty = parseInt d,
               unit = orDefault (m' 4) defaultUnit, deliver = orDefault (m' 5) defaultDeliver \<rparr>"
    by (rule parse_SomeD)
  with assms(1) have m: "m' = m" by simp
  have ne: "defaultCustomer \<noteq> []" "defaultUnit \<noteq> []" "defaultDeliver \<noteq> []"
    by (simp_all add: defaultCustomer_def defaultUnit_def defaultDeliver_def)
  have c: "customer i = orDefault (m 1) defaultCustomer" using i m by simp
  have u: "unit i = orDefault (m 4) defaultUnit" using i m by simp
  have dl: "deliver i = orDefault (m 5) defaultDeliver" using i m by simp
  show ?thesis
    unfolding c u dl using ne by (simp add: orDefault_nonempty) (simp add: orDefault_def)
qed

theorem optional_groups_default_witness:
  "search orderRegex [3626, 3633, 3656, 3591, 3617, 3632, 3609, 3634, 3623, 48]
     = Some [2 \<mapsto> [3617, 3632, 3609, 3634, 3623], 3 \<mapsto> [48]]
   \<and> parse [3626, 3633, 3656, 3591, 3617, 3632, 3609, 3634, 3623, 48]
     = Some \<lparr> customer = defaultCustomer, item = [3617, 3632, 3609, 3634, 3623], qty = Num 0,
              unit = defaultUnit, deliver = defaultDeliver \<rparr>
   \<and> defaultCustomer \<noteq> [] \<and> defaultUnit \<noteq> [] \<and> defaultDeliver \<noteq> []"
proof -
  let ?t = "[3626, 3633, 3656, 3591, 3617, 3632, 3609, 3634, 3623, 48]"
  let ?i = "\<lparr> customer = defaultCustomer, item = [3617, 3632, 3609, 3634, 3623], qty = Num 0,
              unit = defaultUnit, deliver = defaultDeliver \<rparr>"
  have s: "search orderRegex ?t = Some [2 \<mapsto> [3617, 3632, 3609, 3634, 3623], 3 \<mapsto> [48]]"
    by (simp add: orderRegex_def kwOrder_def isThai_def isSpace_def isDigit_def)
  have p: "parse ?t = Some ?i"
    by (simp add: parse_def orderRegex_def kwOrder_def isThai_def isSpace_def isDigit_def
      parseInt_def parseRadix_def parseDigits_def orDefault_def isRadixDigit_def digitValue_def
      radixValue_def)
  from optional_groups_default[OF s p] s p show ?thesis by simp
qed

section \<open>The workflow\<close>


lemma bang_in_insufficientMsg: "33 \<in> set (insufficientMsg it)"
  by (simp add: insufficientMsg_def)

lemma bang_in_confirmation: "33 \<in> set (confirmation cust it q un tot del no)"
  by (simp add: confirmation_def)

lemma bang_notin_errorReply: "33 \<notin> set errorReply"
  by (simp add: errorReply_def)

lemma parseOrder_reliable:
  assumes "parse text = Some i" and "reliable w"
    and "scanStock (stockRows w) (item i) (unit i) = sd"
    and "\<not> js_less (stock sd) (qty i)"
  shows "fst (parseOrder text w) =
           Inr (confirmation (customer i) (item i) (qty i) (unit i) (js_mul (price sd) (qty i))
                  (deliver i) (Num (int (length (orderRows w)) + 1)))"
    and "orderRows (snd (parseOrder text w)) =
           orderRows w @ [orderRow (Num (int (length (orderRows w)) + 1)) (clock w) (customer i)
                            (item i) (qty i) (unit i) (deliver i) (js_mul (price sd) (qty i))]"
    and "stockRows (snd (parseOrder text w)) =
           (case findRow (stockRows w) (item i) (unit i) 0 of
              None \<Rightarrow> stockRows w
            | Some k \<Rightarrow> writeD (stockRows w) (Suc k) (js_sub (stock sd) (qty i)))"
proof -
  define w1 where "w1 = snd (request (ValuesGet StockSheet) w)"
  define tot where "tot = js_mul (price sd) (qty i)"
  define a where "a = addOrder (item i) (qty i) (unit i) (customer i) (deliver i) tot w1"
  have n: "\<not> raisesNext w" using assms(2) by (rule reliable_next)
  have r1: "reliable w1" unfolding w1_def using assms(2) by (rule reliable_request)
  have f1: "orderRows w1 = orderRows w" "stockRows w1 = stockRows w" "clock w1 = clock w"
    by (simp_all add: w1_def request_def)
  have p: "parseOrder text w =
      (Inr (confirmation (customer i) (item i) (qty i) (unit i) tot (deliver i) (fst a)),
       updateStock (item i) (unit i) (js_sub (stock sd) (qty i)) (snd a))"
    using parseOrder_accept[OF assms(1) n] assms(3,4)
    by (simp add: Let_def w1_def tot_def a_def)
  have a1: "fst a = Num (int (length (orderRows w)) + 1)"
    unfolding a_def using addOrder_reliable(1)[OF r1] f1 by simp
  have a2: "orderRows (snd a) = orderRows w @ [orderRow (Num (int (length (orderRows w)) + 1))
              (clock w) (customer i) (item i) (qty i) (unit i) (deliver i) tot]"
    unfolding a_def using addOrder_reliable(2)[OF r1] f1 by simp
  have a3: "stockRows (snd a) = stockRows w"
    unfolding a_def using addOrder_reliable(3)[OF r1] f1 by simp
  have a4: "reliable (snd a)" unfolding a_def using r1 by (rule addOrder_reliable(5))
  show "fst (parseOrder text w) =
           Inr (confirmation (customer i) (item i) (qty i) (unit i) (js_mul (price sd) (qty i))
                  (deliver i) (Num (int (length (orderRows w)) + 1)))"
    by (simp add: p a1 tot_def)
  show "orderRows (snd (parseOrder text w)) =
           orderRows w @ [orderRow (Num (int (length (orderRows w)) + 1)) (clock w) (customer i)
                            (item i) (qty i) (unit i) (deliver i) (js_mul (price sd) (qty i))]"
    by (simp add: p updateStock_orderRows a2 tot_def)
  show "stockRows (snd (parseOrder text w)) =
           (case findRow (stockRows w) (item i) (unit i) 0 of
              None \<Rightarrow> stockRows w
            | Some k \<Rightarrow> writeD (stockRows w) (Suc k) (js_sub (stock sd) (qty i)))"
    by (simp add: p updateStock_reliable(1)[OF a4] a3 split: option.splits)
qed

lemma parseOrder_reliable_calls:
  assumes "parse text = Some i" and "reliable w"
    and "scanStock (stockRows w) (item i) (unit i) = sd"
    and "\<not> js_less (stock sd) (qty i)"
  shows "calls (snd (parseOrder text w)) =
           calls w @ [ValuesGet StockSheet, ValuesGet OrderSheet, ValuesAppend,
                      ValuesGet StockSheet]
           @ (case findRow (stockRows w) (item i) (unit i) 0 of
                None \<Rightarrow> [] | Some k \<Rightarrow> [ValuesUpdate (Suc k)])"
proof -
  define w1 where "w1 = snd (request (ValuesGet StockSheet) w)"
  define tot where "tot = js_mul (price sd) (qty i)"
  define a where "a = addOrder (item i) (qty i) (unit i) (customer i) (deliver i) tot w1"
  have n: "\<not> raisesNext w" using assms(2) by (rule reliable_next)
  have r1: "reliable w1" unfolding w1_def using assms(2) by (rule reliable_request)
  have f1: "stockRows w1 = stockRows w" "calls w1 = calls w @ [ValuesGet StockSheet]"
    by (simp_all add: w1_def request_def)
  have p: "parseOrder text w =
      (Inr (confirmation (customer i) (item i) (qty i) (unit i) tot (deliver i) (fst a)),
       updateStock (item i) (unit i) (js_sub (stock sd) (qty i)) (snd a))"
    using parseOrder_accept[OF assms(1) n] assms(3,4)
    by (simp add: Let_def w1_def tot_def a_def)
  have a3: "stockRows (snd a) = stockRows w"
    unfolding a_def using addOrder_reliable(3)[OF r1] f1 by simp
  have a4: "reliable (snd a)" unfolding a_def using r1 by (rule addOrder_reliable(5))
  have a5: "calls (snd a) = calls w @ [ValuesGet StockSheet, ValuesGet OrderSheet, ValuesAppend]"
    unfolding a_def using addOrder_reliable(4)[OF r1] f1 by simp
  show ?thesis
    by (simp add: p updateStock_reliable(2)[OF a4] a3 a5 split: option.splits)
qed

text \<open>Claim C1. When the text is parsed to an intent, the stock read succeeds and the
  stock found for the item and unit of the intent is strictly less than the quantity, both
  safe integers, then \<^verbatim>\<open>parseOrder\<close> returns the insufficient-stock message for the item
  (the five letters before the item and the five letters and exclamation mark after it, as
  in the source), and neither table has changed: no order row is appended and the stock
  rows are as before. The one call made is the read of the stock table.\<close>

theorem insufficient_stock_rejected:
  assumes "parse text = Some i" and "\<not> raisesNext w"
    and "scanStock (stockRows w) (item i) (unit i) = sd"
    and "safeNum (stock sd)" and "safeNum (qty i)"
    and "js_less (stock sd) (qty i)"
  shows "fst (parseOrder text w) =
           Inr ([3626, 3605, 3655, 3629, 3585] @ item i @ [3652, 3617, 3656, 3614, 3629, 33])
       \<and> stockRows (snd (parseOrder text w)) = stockRows w
       \<and> orderRows (snd (parseOrder text w)) = orderRows w
       \<and> calls (snd (parseOrder text w)) = calls w @ [ValuesGet StockSheet]"
  using assms by (simp add: parseOrder_def getStock_eq request_def insufficientMsg_def)

text \<open>Witness for claim C1: a stock of 4 and an order of 5 of the same item.\<close>

theorem insufficient_stock_rejected_witness:
  "parse orderFive = Some \<lparr> customer = defaultCustomer, item = lime, qty = Num 5,
                            unit = fruit, deliver = defaultDeliver \<rparr>
   \<and> scanStock (stockRows (shop [52] [])) lime fruit = \<lparr> stock = Num 4, price = Num 10 \<rparr>
   \<and> safeNum (Num 4) \<and> safeNum (Num 5)
   \<and> fst (parseOrder orderFive (shop [52] [])) =
        Inr [3626, 3605, 3655, 3629, 3585, 3617, 3632, 3609, 3634, 3623, 3652, 3617, 3656,
             3614, 3629, 33]
   \<and> stockRows (snd (parseOrder orderFive (shop [52] []))) =
        [[[3617, 3632, 3609, 3634, 3623], [3621, 3641, 3585], [], [52], [49, 48]]]
   \<and> orderRows (snd (parseOrder orderFive (shop [52] []))) = []
   \<and> calls (snd (parseOrder orderFive (shop [52] []))) = [ValuesGet StockSheet]"
proof -
  let ?i = "\<lparr> customer = defaultCustomer, item = lime, qty = Num 5, unit = fruit,
              deliver = defaultDeliver \<rparr>"
  let ?sd = "\<lparr> stock = Num 4, price = Num 10 \<rparr>"
  have s: "scanStock (stockRows (shop [52] [])) (item ?i) (unit ?i) = ?sd"
    by (simp add: shop_def run_scan)
  have r: "\<not> raisesNext (shop [52] [])" by (simp add: shop_def raisesNext_def)
  have b: "safeNum (stock ?sd)" "safeNum (qty ?i)" by (simp_all add: safeNum_def maxSafe_def)
  have l: "js_less (stock ?sd) (qty ?i)" by simp
  from insufficient_stock_rejected[OF parse_orderFive r s b l] s parse_orderFive b
  show ?thesis by (simp add: shop_def lime_def fruit_def)
qed



text \<open>Claim C3, as the spec states it, fails for the steps 5 and 6. With a stock of 5
  and an order of 5: when the append raises (third call), and when the write of the stock cell
  raises (fifth call), \<^verbatim>\<open>parseOrder\<close> returns its confirmation all the same, and the
  handler of the event replies with it, not with the error message. The exception of the
  append leaves no order row; the exception of the write leaves the stock at 5. It also
  fails for step 2 when the order was spoken: the exception of the stock read is caught by
  \<^verbatim>\<open>processVoice\<close>, whose reply is the transcription-failed message, not the error
  message.\<close>

theorem later_failures_not_propagated:
  "fst (parseOrder orderFive (shop [53] [False, False, True])) =
     Inr (confirmation defaultCustomer lime (Num 5) fruit (Num 50) defaultDeliver (Num 0))
   \<and> fst (handleTextEvent orderFive (shop [53] [False, False, True])) \<noteq> errorReply
   \<and> calls (snd (handleTextEvent orderFive (shop [53] [False, False, True]))) =
        [ValuesGet StockSheet, ValuesGet OrderSheet, ValuesAppend, ValuesGet StockSheet,
         ValuesUpdate 1]
   \<and> orderRows (snd (handleTextEvent orderFive (shop [53] [False, False, True]))) = []
   \<and> fst (parseOrder orderFive (shop [53] [False, False, False, False, True])) =
     Inr (confirmation defaultCustomer lime (Num 5) fruit (Num 50) defaultDeliver (Num 1))
   \<and> fst (handleTextEvent orderFive (shop [53] [False, False, False, False, True])) \<noteq> errorReply
   \<and> calls (snd (handleTextEvent orderFive (shop [53] [False, False, False, False, True]))) =
        [ValuesGet StockSheet, ValuesGet OrderSheet, ValuesAppend, ValuesGet StockSheet,
         ValuesUpdate 1]
   \<and> stockRows (snd (handleTextEvent orderFive (shop [53] [False, False, False, False, True]))) =
        [[lime, fruit, [], [53], [49, 48]]]
   \<and> fst (parseOrder orderFive (shop [53] [True])) = Inl (ApiError (ValuesGet StockSheet))
   \<and> fst (processVoice (Inr orderFive) False (shop [53] [True])) = [sttFailed]
   \<and> sttFailed \<noteq> errorReply"
proof -
  have a: "parseOrder orderFive (shop [53] [False, False, True]) =
     (Inr (confirmation defaultCustomer lime (Num 5) fruit (Num 50) defaultDeliver (Num 0)),
      \<lparr> stockRows = [[lime, fruit, [], [48], [49, 48]]], orderRows = [], clock = [], faults = [],
        calls = [ValuesGet StockSheet, ValuesGet OrderSheet, ValuesAppend, ValuesGet StockSheet,
                 ValuesUpdate 1] \<rparr>)"
    by (simp add: run_ledger parse_orderFive shop_def digitsOf.simps)
  have b: "parseOrder orderFive (shop [53] [False, False, False, False, True]) =
     (Inr (confirmation defaultCustomer lime (Num 5) fruit (Num 50) defaultDeliver (Num 1)),
      \<lparr> stockRows = [[lime, fruit, [], [53], [49, 48]]],
        orderRows = [orderRow (Num 1) [] defaultCustomer lime (Num 5) fruit defaultDeliver (Num 50)],
        clock = [], faults = [],
        calls = [ValuesGet StockSheet, ValuesGet OrderSheet, ValuesAppend, ValuesGet StockSheet,
                 ValuesUpdate 1] \<rparr>)"
    by (simp add: run_ledger parse_orderFive shop_def digitsOf.simps)
  have v: "parseOrder orderFive (shop [53] [True]) =
     (Inl (ApiError (ValuesGet StockSheet)),
      \<lparr> stockRows = [[lime, fruit, [], [53], [49, 48]]], orderRows = [], clock = [], faults = [],
        calls = [ValuesGet StockSheet] \<rparr>)"
    by (simp add: run_ledger parse_orderFive shop_def)
  have c: "confirmation defaultCustomer lime (Num 5) fruit (Num 50) defaultDeliver no \<noteq> errorReply"
    for no using bang_in_confirmation bang_notin_errorReply by metis
  have d: "sttFailed \<noteq> errorReply" by (simp add: sttFailed_def errorReply_def)
  show ?thesis by (simp add: handleTextEvent_def processVoice_def a b v c d)
qed

text \<open>Claim C3, amended. For a text that is parsed to an intent: an exception raised by
  the read of the stock table (step 2) leaves \<^verbatim>\<open>parseOrder\<close> and is caught by its caller,
  and no table has changed; the handler of a text event replies with the fixed error
  message, \<^verbatim>\<open>processVoice\<close> with the transcription-failed message. When the read of the
  stock table does not raise, no exception leaves \<^verbatim>\<open>parseOrder\<close>, whatever the later calls
  do: an exception of \<^verbatim>\<open>addOrder\<close> (step 5) or of \<^verbatim>\<open>updateStock\<close> (step 6) is caught inside
  that function, and the caller replies with the text \<^verbatim>\<open>parseOrder\<close> returns, which is
  never the error message.\<close>

theorem ledger_failures:
  assumes "parse text = Some i"
  shows "(raisesNext w \<longrightarrow>
            fst (parseOrder text w) = Inl (ApiError (ValuesGet StockSheet))
          \<and> fst (handleTextEvent text w) = errorReply
          \<and> fst (processVoice (Inr text) a w) = [sttFailed]
          \<and> stockRows (snd (handleTextEvent text w)) = stockRows w
          \<and> orderRows (snd (handleTextEvent text w)) = orderRows w)
       \<and> (\<not> raisesNext w \<longrightarrow>
            (\<exists>reply. fst (parseOrder text w) = Inr reply
                   \<and> fst (handleTextEvent text w) = reply \<and> reply \<noteq> errorReply
                   \<and> hd (fst (processVoice (Inr text) a w)) = heardReply text reply))"
proof (intro conjI impI)
  assume r: "raisesNext w"
  then have p: "parseOrder text w =
      (Inl (ApiError (ValuesGet StockSheet)), snd (request (ValuesGet StockSheet) w))"
    using assms by (simp add: parseOrder_def getStock_eq)
  show "fst (parseOrder text w) = Inl (ApiError (ValuesGet StockSheet))" by (simp add: p)
  show "fst (handleTextEvent text w) = errorReply" by (simp add: handleTextEvent_def p)
  show "fst (processVoice (Inr text) a w) = [sttFailed]" by (simp add: processVoice_def p)
  show "stockRows (snd (handleTextEvent text w)) = stockRows w"
    by (simp add: handleTextEvent_def p request_def)
  show "orderRows (snd (handleTextEvent text w)) = orderRows w"
    by (simp add: handleTextEvent_def p request_def)
next
  assume n: "\<not> raisesNext w"
  have v: "fst (handleTextEvent text w) = reply
         \<and> hd (fst (processVoice (Inr text) a w)) = heardReply text reply"
    if "fst (parseOrder text w) = Inr reply" for reply
    using that by (cases "parseOrder text w") (simp add: handleTextEvent_def processVoice_def)
  show "\<exists>reply. fst (parseOrder text w) = Inr reply
           \<and> fst (handleTextEvent text w) = reply \<and> reply \<noteq> errorReply
           \<and> hd (fst (processVoice (Inr text) a w)) = heardReply text reply"
  proof (cases "js_less (stock (scanStock (stockRows w) (item i) (unit i))) (qty i)")
    case True
    then have p: "fst (parseOrder text w) = Inr (insufficientMsg (item i))"
      using assms n by (simp add: parseOrder_def getStock_eq)
    have "insufficientMsg (item i) \<noteq> errorReply"
      using bang_in_insufficientMsg bang_notin_errorReply by metis
    with p v[OF p] show ?thesis by blast
  next
    case False
    from parseOrder_accept[OF assms n False] obtain no where
      p: "fst (parseOrder text w) =
            Inr (confirmation (customer i) (item i) (qty i) (unit i)
                  (js_mul (price (scanStock (stockRows w) (item i) (unit i))) (qty i))
                  (deliver i) no)"
      by (simp add: Let_def)
    have "confirmation (customer i) (item i) (qty i) (unit i)
            (js_mul (price (scanStock (stockRows w) (item i) (unit i))) (qty i)) (deliver i) no
          \<noteq> errorReply"
      using bang_in_confirmation bang_notin_errorReply by metis
    with p v[OF p] show ?thesis by blast
  qed
qed

text \<open>Witness for claim C3: a stock read that raises, and an append that raises.\<close>

theorem ledger_failures_witness:
  "raisesNext (shop [53] [True])
   \<and> fst (parseOrder orderFive (shop [53] [True])) = Inl (ApiError (ValuesGet StockSheet))
   \<and> fst (handleTextEvent orderFive (shop [53] [True])) = errorReply
   \<and> fst (processVoice (Inr orderFive) False (shop [53] [True])) = [sttFailed]
   \<and> stockRows (snd (handleTextEvent orderFive (shop [53] [True]))) = [[lime, fruit, [], [53], [49, 48]]]
   \<and> orderRows (snd (handleTextEvent orderFive (shop [53] [True]))) = []
   \<and> \<not> raisesNext (shop [53] [False, False, True])
   \<and> (\<exists>reply. fst (parseOrder orderFive (shop [53] [False, False, True])) = Inr reply
         \<and> fst (handleTextEvent orderFive (shop [53] [False, False, True])) = reply
         \<and> reply \<noteq> errorReply
         \<and> hd (fst (processVoice (Inr orderFive) False (shop [53] [False, False, True]))) =
             heardReply orderFive reply)"
proof -
  have r: "raisesNext (shop [53] [True])" by (simp add: shop_def raisesNext_def)
  have n: "\<not> raisesNext (shop [53] [False, False, True])" by (simp add: shop_def raisesNext_def)
  have s: "stockRows (shop [53] [True]) = [[lime, fruit, [], [53], [49, 48]]]"
    "orderRows (shop [53] [True]) = []" by (simp_all add: shop_def)
  from ledger_failures[OF parse_orderFive, of "shop [53] [True]" False] r s
    ledger_failures[OF parse_orderFive, of "shop [53] [False, False, True]" False] n
  show ?thesis by simp
qed

text \<open>Claim C5. When its two calls succeed, \<^verbatim>\<open>addOrder\<close> returns the number of rows of the
  orders table plus one, and the orders table is the old one followed by one row, which
  carries that number in its first cell. On a table of 3 rows the number is 4 and the table
  has 4 rows afterwards (the witness).\<close>

theorem addOrder_number:
  assumes "reliable w"
  shows "fst (addOrder it q un cust del tot w) = Num (int (length (orderRows w)) + 1)
       \<and> orderRows (snd (addOrder it q un cust del tot w)) =
           orderRows w @ [orderRow (Num (int (length (orderRows w)) + 1)) (clock w) cust it q un del tot]
       \<and> length (orderRows (snd (addOrder it q un cust del tot w))) = length (orderRows w) + 1"
  using addOrder_reliable(1,2)[OF assms] by simp

text \<open>Witness for claim C5: an orders table of 3 rows.\<close>

theorem addOrder_number_witness:
  "reliable \<lparr> stockRows = [], orderRows = [[JStr [49]], [JStr [50]], [JStr [51]]], clock = [],
              faults = [], calls = [] \<rparr>
   \<and> fst (addOrder lime (Num 5) fruit defaultCustomer defaultDeliver (Num 50)
        \<lparr> stockRows = [], orderRows = [[JStr [49]], [JStr [50]], [JStr [51]]], clock = [],
          faults = [], calls = [] \<rparr>) = Num 4
   \<and> length (orderRows (snd (addOrder lime (Num 5) fruit defaultCustomer defaultDeliver (Num 50)
        \<lparr> stockRows = [], orderRows = [[JStr [49]], [JStr [50]], [JStr [51]]], clock = [],
          faults = [], calls = [] \<rparr>))) = 4"
proof -
  let ?w = "\<lparr> stockRows = [], orderRows = [[JStr [49]], [JStr [50]], [JStr [51]]], clock = [],
              faults = [], calls = [] \<rparr>"
  have r: "reliable ?w" by (simp add: reliable_def)
  from addOrder_number[OF r, of lime "Num 5" fruit defaultCustomer defaultDeliver "Num 50"] r
  show ?thesis by simp
qed



text \<open>Claim C8, as the spec states it, fails when no row of the stock table matches the
  item and the unit: \<^verbatim>\<open>updateStock\<close> writes nothing, and \<^verbatim>\<open>getStock\<close> then returns the
  stock 0, not the 7 that was to be written. The stock table is empty here, the item is the
  five-letter word and the unit the three-letter word of the examples.\<close>

theorem write_without_row_reads_zero:
  "fst (getStock [3617, 3632, 3609, 3634, 3623] [3621, 3641, 3585]
         (updateStock [3617, 3632, 3609, 3634, 3623] [3621, 3641, 3585] (Num 7)
            \<lparr> stockRows = [], orderRows = [], clock = [], faults = [], calls = [] \<rparr>))
     = Inr \<lparr> stock = Num 0, price = Num 0 \<rparr>"
  by (simp add: getStock_def updateStock_def valuesGetStock_def request_def raisesNext_def)

text \<open>Claim C8, amended. When a row of the stock table matches the item and the unit and
  no call fails, \<^verbatim>\<open>getStock\<close> right after \<^verbatim>\<open>updateStock\<close> with the integer \<open>n\<close> returns the
  stock \<open>n\<close> (and the price as it was), and both select the same row: the first
  matching row is still the first matching row after the write.\<close>

theorem stock_write_read_roundtrip:
  assumes "reliable w" and "findRow (stockRows w) it un 0 = Some k"
  shows "fst (getStock it un (updateStock it un (Num n) w)) =
           Inr \<lparr> stock = Num n, price = price (scanStock (stockRows w) it un) \<rparr>
       \<and> findRow (stockRows (updateStock it un (Num n) w)) it un 0 = Some k"
proof -
  have s: "stockRows (updateStock it un (Num n) w) = writeD (stockRows w) (Suc k) (Num n)"
    using updateStock_reliable(1)[OF assms(1), of it un "Num n"] assms(2) by simp
  have "\<not> raisesNext (updateStock it un (Num n) w)"
    using updateStock_reliable(3)[OF assms(1)] by (rule reliable_next)
  then have "fst (getStock it un (updateStock it un (Num n) w)) =
               Inr (scanStock (writeD (stockRows w) (Suc k) (Num n)) it un)"
    by (simp add: getStock_eq s)
  then show ?thesis
    using scanStock_writeD[OF assms(2)] findRow_writeD[OF assms(2)] s by simp
qed

text \<open>Witness for claim C8: the stock cell 5 is overwritten with 7 and read back.\<close>

theorem stock_write_read_roundtrip_witness:
  "reliable (shop [53] [])
   \<and> findRow (stockRows (shop [53] [])) lime fruit 0 = Some 0
   \<and> fst (getStock lime fruit (updateStock lime fruit (Num 7) (shop [53] []))) =
        Inr \<lparr> stock = Num 7, price = Num 10 \<rparr>
   \<and> findRow (stockRows (updateStock lime fruit (Num 7) (shop [53] []))) lime fruit 0 = Some 0"
proof -
  have r: "reliable (shop [53] [])" by (simp add: shop_def reliable_def)
  have k: "findRow (stockRows (shop [53] [])) lime fruit 0 = Some 0"
    by (simp add: shop_def rowMatches_def cellAt_def)
  have s: "scanStock (stockRows (shop [53] [])) lime fruit = \<lparr> stock = Num 5, price = Num 10 \<rparr>"
    by (simp add: shop_def run_ledger)
  from stock_write_read_roundtrip[OF r k, of 7] r k s show ?thesis by simp
qed

text \<open>Claim C10, as the spec states it, fails when the price cell of the matching row
  holds no number. In the first part the stock table has the row of the item and the unit
  with the stock \<^verbatim>\<open>5\<close> and the price cell \<^verbatim>\<open>x\<close>: the order of 0 is accepted and the
  stock cell rewritten, but the total is \<^verbatim>\<open>NaN\<close>, not 0, in the reply and in the row
  appended. In the second part no row matches (the stock table is empty): the stock is read
  as 0 and the order of 0 is accepted with the total 0, but no stock cell is rewritten:
  \<^verbatim>\<open>updateStock\<close> reads the table and makes no update call.\<close>

theorem zero_quantity_nan_total:
  "parseOrder [3626, 3633, 3656, 3591, 3617, 3632, 3609, 3634, 3623, 48, 3621, 3641, 3585]
     \<lparr> stockRows = [[[3617, 3632, 3609, 3634, 3623], [3621, 3641, 3585], [], [53], [120]]],
       orderRows = [], clock = [], faults = [], calls = [] \<rparr>
   = (Inr [3621, 3641, 3585, 3588, 3657, 3634, 3652, 3617, 3656, 3619, 3632, 3610, 3640, 32,
           3588, 3656, 3632, 33, 10, 3617, 3632, 3609, 3634, 3623, 32, 48, 3621, 3641, 3585,
           32, 61, 32, 78, 97, 78, 3647, 10, 3626, 3656, 3591, 3650, 3604, 3618, 32, 3652,
           3617, 3656, 3619, 3632, 3610, 3640, 10, 3619, 3627, 3633, 3626, 58, 32, 49],
      \<lparr> stockRows = [[[3617, 3632, 3609, 3634, 3623], [3621, 3641, 3585], [], [53], [120]]],
        orderRows =
          [[JNum (Num 1), JStr [],
            JStr [3621, 3641, 3585, 3588, 3657, 3634, 3652, 3617, 3656, 3619, 3632, 3610, 3640],
            JStr [3617, 3632, 3609, 3634, 3623], JNum (Num 0), JStr [3621, 3641, 3585], JStr [],
            JStr [3652, 3617, 3656, 3619, 3632, 3610, 3640],
            JStr [3619, 3629, 3604, 3635, 3648, 3609, 3636, 3609, 3585, 3634, 3619], JStr [],
            JNum NaN]],
        clock = [], faults = [],
        calls = [ValuesGet StockSheet, ValuesGet OrderSheet, ValuesAppend, ValuesGet StockSheet,
                 ValuesUpdate 1] \<rparr>)
   \<and> parseOrder [3626, 3633, 3656, 3591, 3617, 3632, 3609, 3634, 3623, 48, 3621, 3641, 3585]
       \<lparr> stockRows = [], orderRows = [], clock = [], faults = [], calls = [] \<rparr>
   = (Inr [3621, 3641, 3585, 3588, 3657, 3634, 3652, 3617, 3656, 3619, 3632, 3610, 3640, 32,
           3588, 3656, 3632, 33, 10, 3617, 3632, 3609, 3634, 3623, 32, 48, 3621, 3641, 3585,
           32, 61, 32, 48, 3647, 10, 3626, 3656, 3591, 3650, 3604, 3618, 32, 3652,
           3617, 3656, 3619, 3632, 3610, 3640, 10, 3619, 3627, 3633, 3626, 58, 32, 49],
      \<lparr> stockRows = [],
        orderRows =
          [[JNum (Num 1), JStr [],
            JStr [3621, 3641, 3585, 3588, 3657, 3634, 3652, 3617, 3656, 3619, 3632, 3610, 3640],
            JStr [3617, 3632, 3609, 3634, 3623], JNum (Num 0), JStr [3621, 3641, 3585], JStr [],
            JStr [3652, 3617, 3656, 3619, 3632, 3610, 3640],
            JStr [3619, 3629, 3604, 3635, 3648, 3609, 3636, 3609, 3585, 3634, 3619], JStr [],
            JNum (Num 0)]],
        clock = [], faults = [],
        calls = [ValuesGet StockSheet, ValuesGet OrderSheet, ValuesAppend,
                 ValuesGet StockSheet] \<rparr>)"
proof -
  have p: "parse [3626, 3633, 3656, 3591, 3617, 3632, 3609, 3634, 3623, 48, 3621, 3641, 3585]
      = Some \<lparr> customer = defaultCustomer, item = lime, qty = Num 0, unit = fruit,
               deliver = defaultDeliver \<rparr>"
    using parse_orderZero by (simp add: orderZero_def)
  show ?thesis
    by (simp add: run_ledger p digitsOf.simps confirmation_def orderRow_def statusPending_def
        defaultCustomer_def defaultDeliver_def lime_def fruit_def)
qed

text \<open>Claim C10, amended. When the quantity of the intent is 0, a row of the stock table
  matches the item and the unit, its stock is a safe integer that is not negative, its
  price is a safe integer, and no call fails: the order is accepted, the reply shows the
  quantity \<^verbatim>\<open>0\<close> and the total \<^verbatim>\<open>0\<close>, the row appended has the quantity 0 and the
  total 0, and \<^verbatim>\<open>updateStock\<close> rewrites the stock cell of the matching row with the same
  stock, which is the stock read back afterwards.\<close>

theorem zero_quantity_accepted:
  assumes "parse text = Some i" and "qty i = Num 0" and "reliable w"
    and "findRow (stockRows w) (item i) (unit i) 0 = Some k"
    and "scanStock (stockRows w) (item i) (unit i) = \<lparr> stock = Num s, price = Num p \<rparr>"
    and "0 \<le> s" and "safeNum (Num s)" and "safeNum (Num p)"
    and "safeNum (Num (int (length (orderRows w)) + 1))"
  shows "fst (parseOrder text w) =
           Inr (customer i @ [32, 3588, 3656, 3632, 33, 10] @ item i @ [32, 48] @ unit i
                @ [32, 61, 32, 48, 3647, 10, 3626, 3656, 3591, 3650, 3604, 3618, 32] @ deliver i
                @ [10, 3619, 3627, 3633, 3626, 58, 32]
                @ numToString (Num (int (length (orderRows w)) + 1)))
       \<and> orderRows (snd (parseOrder text w)) =
           orderRows w @
           [[JNum (Num (int (length (orderRows w)) + 1)), JStr (clock w), JStr (customer i),
             JStr (item i), JNum (Num 0), JStr (unit i), JStr [], JStr (deliver i),
             JStr [3619, 3629, 3604, 3635, 3648, 3609, 3636, 3609, 3585, 3634, 3619], JStr [],
             JNum (Num 0)]]
       \<and> calls (snd (parseOrder text w)) =
           calls w @ [ValuesGet StockSheet, ValuesGet OrderSheet, ValuesAppend,
                      ValuesGet StockSheet, ValuesUpdate (Suc k)]
       \<and> stockRows (snd (parseOrder text w)) = writeD (stockRows w) (Suc k) (Num s)
       \<and> stock (scanStock (stockRows (snd (parseOrder text w))) (item i) (unit i)) = Num s"
proof -
  let ?sd = "\<lparr> stock = Num s, price = Num p \<rparr>"
  have l: "\<not> js_less (stock ?sd) (qty i)" using assms(2,6) by simp
  note r = parseOrder_reliable[OF assms(1,3,5) l]
  have c: "calls (snd (parseOrder text w)) =
           calls w @ [ValuesGet StockSheet, ValuesGet OrderSheet, ValuesAppend,
                      ValuesGet StockSheet, ValuesUpdate (Suc k)]"
    using parseOrder_reliable_calls[OF assms(1,3,5) l] assms(4) by simp
  have st: "stockRows (snd (parseOrder text w)) = writeD (stockRows w) (Suc k) (Num s)"
    using r(3) assms(2,4) by simp
  have z: "numToString (Num 0) = [48]" by (simp add: numToString_def digitsOf.simps)
  have "stock (scanStock (stockRows (snd (parseOrder text w))) (item i) (unit i)) = Num s"
    unfolding st using scanStock_writeD[OF assms(4)] by simp
  with r(1,2) st c assms(2) show ?thesis
    by (simp add: confirmation_def orderRow_def statusPending_def z)
qed

text \<open>Witness for claim C10: an order of 0 against a stock of 5 and a price of 10.\<close>

theorem zero_quantity_accepted_witness:
  "parse orderZero = Some \<lparr> customer = defaultCustomer, item = lime, qty = Num 0,
                            unit = fruit, deliver = defaultDeliver \<rparr>
   \<and> scanStock (stockRows (shop [53] [])) lime fruit = \<lparr> stock = Num 5, price = Num 10 \<rparr>
   \<and> fst (parseOrder orderZero (shop [53] [])) =
     Inr [3621, 3641, 3585, 3588, 3657, 3634, 3652, 3617, 3656, 3619, 3632, 3610, 3640, 32,
          3588, 3656, 3632, 33, 10, 3617, 3632, 3609, 3634, 3623, 32, 48, 3621, 3641, 3585,
          32, 61, 32, 48, 3647, 10, 3626, 3656, 3591, 3650, 3604, 3618, 32, 3652, 3617,
          3656, 3619, 3632, 3610, 3640, 10, 3619, 3627, 3633, 3626, 58, 32, 49]
   \<and> orderRows (snd (parseOrder orderZero (shop [53] []))) =
       [[JNum (Num 1), JStr [],
         JStr [3621, 3641, 3585, 3588, 3657, 3634, 3652, 3617, 3656, 3619, 3632, 3610, 3640],
         JStr [3617, 3632, 3609, 3634, 3623], JNum (Num 0), JStr [3621, 3641, 3585], JStr [],
         JStr [3652, 3617, 3656, 3619, 3632, 3610, 3640],
         JStr [3619, 3629, 3604, 3635, 3648, 3609, 3636, 3609, 3585, 3634, 3619], JStr [],
         JNum (Num 0)]]
   \<and> calls (snd (parseOrder orderZero (shop [53] []))) =
       [ValuesGet StockSheet, ValuesGet OrderSheet, ValuesAppend, ValuesGet StockSheet,
        ValuesUpdate 1]
   \<and> stockRows (snd (parseOrder orderZero (shop [53] []))) =
       [[[3617, 3632, 3609, 3634, 3623], [3621, 3641, 3585], [], [53], [49, 48]]]
   \<and> stock (scanStock (stockRows (snd (parseOrder orderZero (shop [53] [])))) lime fruit) = Num 5"
proof -
  let ?i = "\<lparr> customer = defaultCustomer, item = lime, qty = Num 0, unit = fruit,
              deliver = defaultDeliver \<rparr>"
  have q: "qty ?i = Num 0" by simp
  have r: "reliable (shop [53] [])" by (simp add: shop_def reliable_def)
  have k: "findRow (stockRows (shop [53] [])) (item ?i) (unit ?i) 0 = Some 0"
    by (simp add: shop_def rowMatches_def cellAt_def)
  have s: "scanStock (stockRows (shop [53] [])) (item ?i) (unit ?i)
             = \<lparr> stock = Num 5, price = Num 10 \<rparr>"
    by (simp add: shop_def run_scan)
  have z: "(0::int) \<le> 5" by simp
  have b: "safeNum (Num 5)" "safeNum (Num 10)"
    "safeNum (Num (int (length (orderRows (shop [53] []))) + 1))"
    by (simp_all add: safeNum_def maxSafe_def shop_def)
  have o: "writeD (stockRows (shop [53] [])) (Suc 0) (Num 5) =
             [[[3617, 3632, 3609, 3634, 3623], [3621, 3641, 3585], [], [53], [49, 48]]]"
    by (simp add: shop_def writeD_def setAt_def rowAt_def numToString_def digitsOf.simps
        lime_def fruit_def)
  from zero_quantity_accepted[OF parse_orderZero q r k s z b] s parse_orderZero o
  show ?thesis
    by (simp add: shop_def numToString_def digitsOf.simps defaultCustomer_def
        defaultDeliver_def lime_def fruit_def)
qed

end
